theory Spec2Isabelle
  imports Complex_Main "HOL-Library.Multiset" "HOL-Library.Log_Nat"
begin

section \<open>Numbers\<close>

text \<open>
  A JavaScript number is an IEEE 754 binary64 value. A finite one is modelled by the real
  number it denotes, and an arithmetic operation on finite numbers by the exact operation
  followed by \<open>binary64\<close>, the rounding to the nearest double, a tie going to the even
  significand. The doubles of magnitude at least \<open>2^-1022\<close> have a significand of 53
  bits; below, they are the multiples of \<open>2^-1074\<close>. \<open>pow2 e\<close> is \<open>2^e\<close> and \<open>expo x\<close> is the
  exponent of \<open>x\<close>, the \<open>e\<close> with \<open>2^e \<le> |x| < 2^(e+1)\<close>. A decimal literal of the source, and
  a number read from JSON, is the \<open>binary64\<close> of its decimal value. The two zeros are not
  told apart (no operation used here does).

  Ratings, distances, weights and scores are finite numbers, of type \<open>real\<close>; the exponent
  of \<open>binary64\<close> has no upper bound, so a result of magnitude \<open>2^1024\<close> or more, which is
  \<open>Infinity\<close> in JavaScript, is outside this model of them. Delays, wait times and epoch
  milliseconds are integers far below \<open>2^53\<close>, on which the arithmetic is exact: they are
  \<open>int\<close>, and an \<open>option\<close> with \<open>None\<close> for \<open>NaN\<close> where they may be \<open>NaN\<close> (the time of an
  invalid \<open>Date\<close>, the result of \<open>parseInt\<close>).
\<close>

definition pow2 :: "int \<Rightarrow> real" where
  "pow2 e = (if 0 \<le> e then 2 ^ nat e else 1 / 2 ^ nat (- e))"

definition expo :: "real \<Rightarrow> int" where
  "expo x = (if 1 \<le> \<bar>x\<bar> then bitlen \<lfloor>\<bar>x\<bar>\<rfloor> - 1 else - bitlen (\<lceil>1 / \<bar>x\<bar>\<rceil> - 1))"

definition roundEven :: "real \<Rightarrow> int" where
  "roundEven r =
     (let f = \<lfloor>r\<rfloor>
      in if r - of_int f < 1 / 2 then f
         else if 1 / 2 < r - of_int f then f + 1
         else if even f then f else f + 1)"

definition binary64 :: "real \<Rightarrow> real" where
  "binary64 x =
     (if x = 0 then 0
      else (let q = pow2 (max (expo x - 52) (- 1074))
            in of_int (roundEven (x / q)) * q))"

text \<open>The operators \<open>+\<close>, \<open>-\<close> and \<open>*\<close> on finite numbers.\<close>

definition fadd :: "real \<Rightarrow> real \<Rightarrow> real" where
  "fadd x y = binary64 (x + y)"

definition fsub :: "real \<Rightarrow> real \<Rightarrow> real" where
  "fsub x y = binary64 (x - y)"

definition fmul :: "real \<Rightarrow> real \<Rightarrow> real" where
  "fmul x y = binary64 (x * y)"

text \<open>
  Where the code may meet a number that is not finite, the number is a \<open>number\<close>: the
  batch size of the orchestrator's configuration, and the loop index computed from it.
  \<open>Num x\<close> is the finite double \<open>x\<close>.
  \<open>toDouble\<close> is the result of an operation whose exact value is \<open>x\<close>: the rounded value, or
  an infinity when that has magnitude \<open>2^1024\<close> or more. \<open>js_add\<close> is \<open>+\<close> and \<open>js_less\<close> is \<open><\<close> on
  numbers; \<open>toNumber\<close> converts a value that may be \<open>undefined\<close> (\<open>None\<close>), as \<open>+\<close> does to its
  operands.
\<close>

datatype number = Num real | PosInf | NegInf | NaN

definition toDouble :: "real \<Rightarrow> number" where
  "toDouble x =
     (let r = binary64 x
      in if r \<noteq> 0 \<and> 1024 \<le> expo r then (if 0 < r then PosInf else NegInf) else Num r)"

definition toNumber :: "number option \<Rightarrow> number" where
  "toNumber v = (case v of None \<Rightarrow> NaN | Some n \<Rightarrow> n)"

definition js_add :: "number \<Rightarrow> number \<Rightarrow> number" where
  "js_add a b =
     (case a of
        NaN \<Rightarrow> NaN
      | PosInf \<Rightarrow> (case b of NaN \<Rightarrow> NaN | NegInf \<Rightarrow> NaN | _ \<Rightarrow> PosInf)
      | NegInf \<Rightarrow> (case b of NaN \<Rightarrow> NaN | PosInf \<Rightarrow> NaN | _ \<Rightarrow> NegInf)
      | Num x \<Rightarrow> (case b of NaN \<Rightarrow> NaN | PosInf \<Rightarrow> PosInf | NegInf \<Rightarrow> NegInf
                   | Num y \<Rightarrow> toDouble (x + y)))"

definition js_less :: "number \<Rightarrow> number \<Rightarrow> bool" where
  "js_less a b =
     (case a of
        NaN \<Rightarrow> False
      | PosInf \<Rightarrow> False
      | NegInf \<Rightarrow> (case b of Num y \<Rightarrow> True | PosInf \<Rightarrow> True | _ \<Rightarrow> False)
      | Num x \<Rightarrow> (case b of Num y \<Rightarrow> x < y | PosInf \<Rightarrow> True | _ \<Rightarrow> False))"

section \<open>Data model (src/lib/schema.ts)\<close>

text \<open>Strings are byte lists. An optional property is an \<open>option\<close>.\<close>

record ProviderMetadata =
  accepts_insurance :: "bool option"
  parking :: "string option"
  specialty :: "string option"
  waitlist :: "bool option"
  same_day :: "bool option"
  notes_m :: "string option"

record Provider =
  id_p :: string
  name :: string
  phone :: string
  category :: string
  rating :: real
  address :: string
  distanceMiles :: real
  availableSlots :: "string list"
  metadata :: "ProviderMetadata option"

record TimeRange =
  start_t :: string
  end_t :: string

datatype IntentStatus = Searching | IntentCalling | Booked | IntentFailed

record AppointmentIntent =
  userId :: string
  serviceType :: string
  userLocation :: "string option"
  preferredTimeRange :: TimeRange
  maxDistanceMiles :: real
  intent_status :: IntentStatus

section \<open>The host environment\<close>

text \<open>
  What the JavaScript runtime and the data file supply is taken as a parameter, so that
  every theorem below holds for every runtime:
  \<^item> \<open>directory\<close>: the \<open>providers\<close> array of \<open>@/data/directory.json\<close>;
  \<open>getTime s\<close>: \<open>new Date(s).getTime()\<close>, \<open>None\<close> when the date is invalid;
  \<open>getHours s\<close>: \<open>new Date(s).getHours()\<close> in the local zone;
  \<^item> \<open>formatSlot\<close>: the display text that \<open>formatSlot\<close> obtains from
  \<open>Date.prototype.toLocaleString\<close>; \<open>toUpperCase\<close>: \<open>String.prototype.toUpperCase\<close>;
  \<^item> \<open>todayStr\<close>, \<open>tomorrowStr\<close>: the two \<open>toLocaleDateString\<close> results that the
  synthetic provider's slots are built from.
\<close>

record host =
  directory :: "Provider list"
  getTime :: "string \<Rightarrow> int option"
  getHours :: "string \<Rightarrow> int option"
  formatSlot :: "string \<Rightarrow> string"
  toUpperCase :: "string \<Rightarrow> string"
  todayStr :: string
  tomorrowStr :: string

text \<open>Comparisons of numbers that may be \<open>NaN\<close>: false as soon as one side is.\<close>

definition num_ge :: "int option \<Rightarrow> int option \<Rightarrow> bool" where
  "num_ge a b = (case a of None \<Rightarrow> False | Some x \<Rightarrow> (case b of None \<Rightarrow> False | Some y \<Rightarrow> x \<ge> y))"

definition num_le :: "int option \<Rightarrow> int option \<Rightarrow> bool" where
  "num_le a b = (case a of None \<Rightarrow> False | Some x \<Rightarrow> (case b of None \<Rightarrow> False | Some y \<Rightarrow> x \<le> y))"

section \<open>Array.prototype.sort\<close>

text \<open>
  \<open>Array.prototype.sort\<close> with a comparator is a stable sort (ECMAScript 2019); a
  comparator result \<open>v\<close> orders \<open>a\<close> before \<open>b\<close> when \<open>v < 0\<close> and after when \<open>v > 0\<close>.
  It is modelled by a stable insertion sort: for a comparator that is a consistent
  ordering every stable sort returns the same array. Only the sign of the comparator's
  value is used.
\<close>

fun js_insert :: "('a \<Rightarrow> 'a \<Rightarrow> real) \<Rightarrow> 'a \<Rightarrow> 'a list \<Rightarrow> 'a list" where
  "js_insert cmp x [] = [x]"
| "js_insert cmp x (y # ys) = (if cmp x y \<le> 0 then x # y # ys else y # js_insert cmp x ys)"

fun js_sort :: "('a \<Rightarrow> 'a \<Rightarrow> real) \<Rightarrow> 'a list \<Rightarrow> 'a list" where
  "js_sort cmp [] = []"
| "js_sort cmp (x # xs) = js_insert cmp x (js_sort cmp xs)"

section \<open>Ranking (src/lib/rankingLogic.ts)\<close>

record RankedProvider = Provider +
  finalScore :: real
  matchingSlots :: "string list"

record RankingWeights =
  ratingMultiplier :: real
  maxDistanceScore :: real
  distanceDecayPerMile :: real
  slotMatchBonus :: real

definition DEFAULT_WEIGHTS :: RankingWeights where
  "DEFAULT_WEIGHTS = \<lparr>ratingMultiplier = 10, maxDistanceScore = 30,
     distanceDecayPerMile = 5, slotMatchBonus = 20\<rparr>"

text \<open>The filter predicate of \<open>scoreProvider\<close>: the slot lies in the preferred range.\<close>

definition slotInRange :: "host \<Rightarrow> AppointmentIntent \<Rightarrow> string \<Rightarrow> bool" where
  "slotInRange h intent slot =
     (let slotTime = getTime h slot;
          startTime = getTime h (start_t (preferredTimeRange intent));
          endTime = getTime h (end_t (preferredTimeRange intent))
      in num_ge slotTime startTime \<and> num_le slotTime endTime)"

text \<open>
  \<open>scoreProvider\<close>: every \<open>+=\<close>, \<open>-\<close> and \<open>*\<close> of the source is the rounded operation, in the
  order of the source; \<open>Math.max\<close> does not round.
\<close>

definition scoreProvider :: "host \<Rightarrow> Provider \<Rightarrow> AppointmentIntent \<Rightarrow> RankingWeights \<Rightarrow> RankedProvider" where
  "scoreProvider h provider intent weights =
     (let score0 = (0::real);
          score1 = fadd score0 (fmul (rating provider) (ratingMultiplier weights));
          distanceScore = max 0 (fsub (maxDistanceScore weights)
                                   (fmul (distanceMiles provider) (distanceDecayPerMile weights)));
          score2 = fadd score1 distanceScore;
          matching = filter (slotInRange h intent) (availableSlots provider);
          score3 = (if length matching > 0 then fadd score2 (slotMatchBonus weights) else score2)
      in Provider.extend provider (RankedProvider.fields score3 matching))"

definition rankProviders :: "host \<Rightarrow> Provider list \<Rightarrow> AppointmentIntent \<Rightarrow> RankingWeights \<Rightarrow> RankedProvider list" where
  "rankProviders h providers intent weights =
     js_sort (\<lambda>a b. fsub (finalScore b) (finalScore a))
       (map (\<lambda>provider. scoreProvider h provider intent weights) providers)"

section \<open>String operations of the runtime\<close>

text \<open>
  The \<open>String\<close> methods the simulator uses, on byte strings (a character outside ASCII is
  several bytes here and one or two code units in JavaScript; the patterns searched for
  are all ASCII).
\<close>

definition startsWith :: "string \<Rightarrow> string \<Rightarrow> bool" where
  "startsWith s p = (take (length p) s = p)"

text \<open>\<open>s.split(sep)\<close> for a one-character separator: never the empty array.\<close>

fun js_split :: "char \<Rightarrow> string \<Rightarrow> string list" where
  "js_split sep [] = [[]]"
| "js_split sep (c # cs) =
     (if c = sep then [] # js_split sep cs
      else (case js_split sep cs of [] \<Rightarrow> [[c]] | w # ws \<Rightarrow> (c # w) # ws))"

definition nth_opt :: "'a list \<Rightarrow> nat \<Rightarrow> 'a option" where
  "nth_opt xs i = (if i < length xs then Some (xs ! i) else None)"

text \<open>\<open>x || d\<close> on a string that may be \<open>undefined\<close>: the empty string is falsy too.\<close>

definition orElse :: "string option \<Rightarrow> string \<Rightarrow> string" where
  "orElse x d = (case x of None \<Rightarrow> d | Some s \<Rightarrow> if s = [] then d else s)"

text \<open>
  \<open>GetSubstitution\<close> for a string pattern (no captures): in the replacement text \<open>$$\<close> is
  a dollar sign, \<open>$&\<close> the match, dollar-backquote the text before it and dollar-apostrophe
  the text after it; every other character stands for itself.
\<close>

fun getSubstitution :: "string \<Rightarrow> string \<Rightarrow> string \<Rightarrow> string \<Rightarrow> string" where
  "getSubstitution matched pre post (c # d # r) =
     (if c = CHR ''$'' \<and> d = CHR ''$'' then CHR ''$'' # getSubstitution matched pre post r
      else if c = CHR ''$'' \<and> d = CHR ''&'' then matched @ getSubstitution matched pre post r
      else if c = CHR ''$'' \<and> d = CHR 0x60 then pre @ getSubstitution matched pre post r
      else if c = CHR ''$'' \<and> d = CHR 0x27 then post @ getSubstitution matched pre post r
      else c # getSubstitution matched pre post (d # r))"
| "getSubstitution matched pre post r = r"

text \<open>\<open>s.replace(pat, rep)\<close> with a string pattern: the first occurrence only.\<close>

fun js_replace_from :: "string \<Rightarrow> string \<Rightarrow> string \<Rightarrow> string \<Rightarrow> string" where
  "js_replace_from pat rep pre [] =
     (if pat = [] then pre @ getSubstitution [] pre [] rep else pre)"
| "js_replace_from pat rep pre (c # cs) =
     (if take (length pat) (c # cs) = pat
      then pre @ getSubstitution pat pre (drop (length pat) (c # cs)) rep
               @ drop (length pat) (c # cs)
      else js_replace_from pat rep (pre @ [c]) cs)"

definition js_replace :: "string \<Rightarrow> string \<Rightarrow> string \<Rightarrow> string" where
  "js_replace s pat rep = js_replace_from pat rep [] s"

definition isDigit :: "char \<Rightarrow> bool" where
  "isDigit c = (48 \<le> (of_char c :: nat) \<and> (of_char c :: nat) \<le> 57)"

text \<open>
  The regular expression \<open>/(\.\d+)?([Zz]|[+-]\d{2}:\d{2})$/\<close>: \<open>zoneOnly\<close> is its second
  group matched against a whole string, \<open>zoneMatch\<close> the whole expression matched against
  a whole string, and \<open>stripZone\<close> is \<open>s.replace(regex, '')\<close>, which cuts the string at the
  leftmost position from which the expression matches up to the end.
\<close>

definition zoneOnly :: "string \<Rightarrow> bool" where
  "zoneOnly s =
     (s = ''Z'' \<or> s = ''z'' \<or>
      (length s = 6 \<and> (s ! 0 = CHR ''+'' \<or> s ! 0 = CHR ''-'') \<and> isDigit (s ! 1)
        \<and> isDigit (s ! 2) \<and> s ! 3 = CHR '':'' \<and> isDigit (s ! 4) \<and> isDigit (s ! 5)))"

definition zoneMatch :: "string \<Rightarrow> bool" where
  "zoneMatch s =
     (zoneOnly s \<or>
      (case s of [] \<Rightarrow> False
       | c # cs \<Rightarrow> c = CHR ''.'' \<and> takeWhile isDigit cs \<noteq> [] \<and> zoneOnly (dropWhile isDigit cs)))"

fun stripZone :: "string \<Rightarrow> string" where
  "stripZone [] = []"
| "stripZone (c # cs) = (if zoneMatch (c # cs) then [] else c # stripZone cs)"

text \<open>
  \<open>parseInt(s)\<close> without a radix: leading white space, an optional sign, an optional
  \<open>0x\<close> prefix, then the longest run of digits of the radix; \<open>NaN\<close> when that run is empty.
  White space is the ASCII white space here.
\<close>

definition isWhite :: "char \<Rightarrow> bool" where
  "isWhite c = ((of_char c :: nat) \<in> {9, 10, 11, 12, 13, 32})"

definition digitVal :: "char \<Rightarrow> nat" where
  "digitVal c =
     (let n = (of_char c :: nat)
      in if 48 \<le> n \<and> n \<le> 57 then n - 48
         else if 97 \<le> n \<and> n \<le> 122 then n - 87
         else if 65 \<le> n \<and> n \<le> 90 then n - 55
         else 36)"

definition parseInt :: "string \<Rightarrow> int option" where
  "parseInt s =
     (let s1 = dropWhile isWhite s;
          sign = (if startsWith s1 ''-'' then - 1 else (1::int));
          s2 = (if startsWith s1 ''-'' \<or> startsWith s1 ''+'' then drop 1 s1 else s1);
          hex = (startsWith s2 ''0x'' \<or> startsWith s2 ''0X'');
          R = (if hex then 16 else (10::nat));
          s3 = (if hex then drop 2 s2 else s2);
          Z = takeWhile (\<lambda>c. digitVal c < R) s3
      in if Z = [] then None
         else Some (sign * int (foldl (\<lambda>acc c. acc * R + digitVal c) 0 Z)))"

text \<open>Strict comparisons of numbers that may be \<open>NaN\<close>.\<close>

definition num_lt :: "int option \<Rightarrow> int option \<Rightarrow> bool" where
  "num_lt a b = (case a of None \<Rightarrow> False | Some x \<Rightarrow> (case b of None \<Rightarrow> False | Some y \<Rightarrow> x < y))"

definition num_gt :: "int option \<Rightarrow> int option \<Rightarrow> bool" where
  "num_gt a b = (case a of None \<Rightarrow> False | Some x \<Rightarrow> (case b of None \<Rightarrow> False | Some y \<Rightarrow> x > y))"

section \<open>The receptionist simulator (src/lib/receptionistSimulator.ts)\<close>

datatype Role = receptionist | alfred

record TranscriptLine =
  role :: Role
  line_message :: string
  delay :: int

record CallResult =
  success :: bool
  providerId :: string
  providerName :: string
  message :: string
  bookedSlot :: "string option"
  alternativeSlots :: "string list option"
  waitTime :: int
  transcript :: "TranscriptLine list"

datatype Friendliness = friendly | neutral | busy

record ReceptionistPersonality =
  friendliness :: Friendliness
  responseDelay :: int
  availabilityRate :: real

fun PERSONALITIES :: "Friendliness \<Rightarrow> ReceptionistPersonality" where
  "PERSONALITIES friendly =
     \<lparr>friendliness = friendly, responseDelay = 1200, availabilityRate = binary64 0.8\<rparr>"
| "PERSONALITIES neutral =
     \<lparr>friendliness = neutral, responseDelay = 1800, availabilityRate = binary64 0.6\<rparr>"
| "PERSONALITIES busy =
     \<lparr>friendliness = busy, responseDelay = 2500, availabilityRate = binary64 0.4\<rparr>"

record Script =
  greeting :: string
  requestResponse :: string
  available :: string
  unavailable :: string
  booked :: string
  noSlots :: string

fun SCRIPTS :: "Friendliness \<Rightarrow> Script" where
  "SCRIPTS friendly = \<lparr>
     greeting = ''Good morning! Thank you for calling {providerName}, how can I help you today?'',
     requestResponse = ''Of course! Let me check our schedule for {slot}...'',
     available = ''Yes! We have that slot available. I'll book that for you right now.'',
     unavailable = ''I'm sorry, that specific time is taken. Would {alternative} work for you instead?'',
     booked = ''Perfect! You're all set for {slot}. We'll see you then!'',
     noSlots = ''Unfortunately, we're fully booked for that day. Can I put you on our waitlist?''\<rparr>"
| "SCRIPTS neutral = \<lparr>
     greeting = ''Hello, {providerName}. How may I assist you?'',
     requestResponse = ''One moment while I look at the calendar...'',
     available = ''Yes, that time is open. Shall I book it?'',
     unavailable = ''That slot is not available. We have {alternative} open.'',
     booked = ''Confirmed for {slot}. Is there anything else?'',
     noSlots = ''We don't have availability then. Would you like to try another day?''\<rparr>"
| "SCRIPTS busy = \<lparr>
     greeting = ''{providerName}, please hold... Okay, what do you need?'',
     requestResponse = ''Hold on... checking...'',
     available = ''Yeah, we can do that. Booking now.'',
     unavailable = ''No, that's taken. {alternative} is the only option.'',
     booked = ''Done. {slot}. Anything else?'',
     noSlots = ''Nothing available. Call back next week.''\<rparr>"

text \<open>
  \<open>getProvider\<close>: the directory first, then a provider made up for an id that starts with
  \<open>synth_\<close>.
\<close>

definition capitalize :: "host \<Rightarrow> string \<Rightarrow> string" where
  "capitalize h word = toUpperCase h (take 1 word) @ drop 1 word"

definition getProvider :: "host \<Rightarrow> string \<Rightarrow> Provider option" where
  "getProvider h providerId' =
     (case find (\<lambda>p. id_p p = providerId') (directory h) of
        Some realProvider \<Rightarrow> Some realProvider
      | None \<Rightarrow>
          if startsWith providerId' ''synth_'' then
            (let parts = js_split CHR ''_'' providerId';
                 categ = orElse (nth_opt parts 1) ''service'';
                 index = orElse (nth_opt parts 2) ''01''
             in Some \<lparr>
                  id_p = providerId',
                  name = (if index = ''01'' then capitalize h categ @ '' of Boston''
                          else ''Elite '' @ capitalize h categ @ '' Care''),
                  phone = (if index = ''01'' then ''+1-617-555-9901'' else ''+1-617-555-9902''),
                  category = categ,
                  rating = (if index = ''01'' then binary64 4.7 else binary64 4.9),
                  address = (if index = ''01'' then ''100 Main St, Boston, MA''
                             else ''250 Common Ave, Boston, MA''),
                  distanceMiles = (if index = ''01'' then binary64 0.5 else binary64 1.2),
                  availableSlots = [todayStr h @ ''T10:00:00'', todayStr h @ ''T14:30:00'',
                                    tomorrowStr h @ ''T09:00:00''],
                  metadata = Some \<lparr>accepts_insurance = None, parking = None, specialty = None,
                                    waitlist = None, same_day = None,
                                    notes_m = Some ''Dynamically generated provider''\<rparr>\<rparr>)
          else None)"

text \<open>\<open>Math.abs(slotTime - requestedTime) <= 60 * 60 * 1000\<close>, false on \<open>NaN\<close>.\<close>

definition withinFlex :: "int option \<Rightarrow> int option \<Rightarrow> bool" where
  "withinFlex slotTime requestedTime =
     (case slotTime of None \<Rightarrow> False
      | Some a \<Rightarrow> (case requestedTime of None \<Rightarrow> False | Some b \<Rightarrow> \<bar>a - b\<bar> \<le> 60 * 60 * 1000))"

definition personalityOf :: "Provider \<Rightarrow> Friendliness" where
  "personalityOf provider =
     (if rating provider \<ge> 4.5 then friendly else if rating provider \<ge> 4.0 then neutral else busy)"

text \<open>\<open>transcript.reduce((sum, t) => sum + t.delay, 0)\<close>\<close>

definition sumDelays :: "TranscriptLine list \<Rightarrow> int" where
  "sumDelays ts = foldl (\<lambda>sum t. sum + delay t) 0 ts"

text \<open>
  The alternative offered on failure: the first slot without its first \<open>Z\<close>, or ten
  o'clock of the same day when its hour is before 8 or after 18.
\<close>

definition alternativeFor :: "string \<Rightarrow> string" where
  "alternativeFor slot0 =
     (let alternative = js_replace slot0 ''Z'' [];
          clean = stripZone alternative;
          altDatePart = (case js_split CHR ''T'' clean of [] \<Rightarrow> [] | d # _ \<Rightarrow> d);
          altTimePart = (case js_split CHR ''T'' clean of _ # t # _ \<Rightarrow> t | _ \<Rightarrow> ''00:00:00'');
          altHour = parseInt (case js_split CHR '':'' altTimePart of [] \<Rightarrow> [] | x # _ \<Rightarrow> x)
      in if num_lt altHour (Some 8) \<or> num_gt altHour (Some 18)
         then altDatePart @ ''T10:00:00'' else alternative)"

text \<open>
  \<open>simulateProviderCall\<close>. \<open>rnd\<close> is the value \<open>Math.random()\<close> returns if it is called.
  The comparisons of the rating with 4.5 and 4.0 are exact (both are doubles).
  The function is \<open>async\<close> but awaits nothing, and none of its steps throws, so it is a
  total function to the \<open>CallResult\<close> its promise resolves to.
\<close>

definition simulateProviderCall :: "host \<Rightarrow> real \<Rightarrow> string \<Rightarrow> string \<Rightarrow> string option \<Rightarrow> CallResult" where
  "simulateProviderCall h rnd providerId' requestedSlot serviceDescription =
     (let formattedRequestedSlot = formatSlot h requestedSlot
      in case getProvider h providerId' of
        None \<Rightarrow>
          \<lparr>success = False, providerId = providerId', providerName = ''Unknown'',
           message = ''Provider not found in directory'',
           bookedSlot = None, alternativeSlots = None, waitTime = 500,
           transcript = [\<lparr>role = receptionist, line_message = ''Unknown provider'', delay = 0\<rparr>]\<rparr>
      | Some provider \<Rightarrow>
          (let personalityType = personalityOf provider;
               personality = PERSONALITIES personalityType;
               scripts = SCRIPTS personalityType;
               transcript1 = [\<lparr>role = receptionist,
                   line_message = js_replace (greeting scripts) ''{providerName}'' (name provider),
                   delay = 500\<rparr>];
               transcript2 = transcript1 @ [\<lparr>role = alfred,
                   line_message = ''Hi, I'm calling to book a '' @ orElse serviceDescription ''appointment''
                                    @ '' for '' @ formattedRequestedSlot @ ''.'',
                   delay = 800\<rparr>];
               transcript3 = transcript2 @ [\<lparr>role = receptionist,
                   line_message = js_replace (requestResponse scripts) ''{slot}'' formattedRequestedSlot,
                   delay = responseDelay personality\<rparr>];
               requestedTime = getTime h requestedSlot;
               hour = getHours h requestedSlot;
               isAfterHours = (num_ge hour (Some 22) \<or> num_le hour (Some 7));
               availableSlot = (if isAfterHours then None
                                else find (\<lambda>slot. withinFlex (getTime h slot) requestedTime)
                                       (availableSlots provider));
               isAvailable = (availableSlot \<noteq> None \<and> availableSlot \<noteq> Some []
                              \<and> rnd < fadd (availabilityRate personality) (binary64 0.1))
           in case (if isAvailable then availableSlot else None) of
                Some slot \<Rightarrow>
                  (let transcript6 = transcript3
                         @ [\<lparr>role = receptionist, line_message = available scripts, delay = 1000\<rparr>,
                            \<lparr>role = alfred,
                             line_message = ''That sounds perfect. Please confirm the booking.'',
                             delay = 500\<rparr>,
                            \<lparr>role = receptionist,
                             line_message = js_replace (booked scripts) ''{slot}'' (formatSlot h slot),
                             delay = 800\<rparr>]
                   in \<lparr>success = True, providerId = providerId', providerName = name provider,
                       message = js_replace (booked scripts) ''{slot}'' (formatSlot h slot),
                       bookedSlot = Some (js_replace slot ''Z'' []),
                       alternativeSlots = None,
                       waitTime = sumDelays transcript6, transcript = transcript6\<rparr>)
              | None \<Rightarrow>
                  (case availableSlots provider of
                     slot0 # _ \<Rightarrow>
                       (let alternative = alternativeFor slot0;
                            transcript5 = transcript3
                              @ [\<lparr>role = receptionist,
                                  line_message = js_replace (unavailable scripts) ''{alternative}''
                                                   (formatSlot h alternative),
                                  delay = 1000\<rparr>,
                                 \<lparr>role = alfred,
                                  line_message = ''Let me check with the user and get back to you.'',
                                  delay = 500\<rparr>]
                        in \<lparr>success = False, providerId = providerId', providerName = name provider,
                            message = js_replace (unavailable scripts) ''{alternative}''
                                        (formatSlot h alternative),
                            bookedSlot = None, alternativeSlots = Some [alternative],
                            waitTime = sumDelays transcript5, transcript = transcript5\<rparr>)
                   | [] \<Rightarrow>
                       (let transcript4 = transcript3
                              @ [\<lparr>role = receptionist, line_message = noSlots scripts, delay = 1000\<rparr>]
                        in \<lparr>success = False, providerId = providerId', providerName = name provider,
                            message = noSlots scripts,
                            bookedSlot = None, alternativeSlots = None,
                            waitTime = sumDelays transcript4, transcript = transcript4\<rparr>))))"

section \<open>The swarm orchestrator (src/lib/swarmOrchestrator.ts)\<close>

datatype CallState = Pending | Calling | Success | Failed | Timeout | Cancelled

text \<open>
  The wall-clock fields \<open>startedAt\<close> and \<open>completedAt\<close> of a status and
  \<open>totalDurationMs\<close> of a result hold values of \<open>Date.now()\<close> that nothing in the class
  reads; they are left out.
\<close>

record SwarmCallStatus =
  st_providerId :: string
  st_providerName :: string
  status :: CallState
  result :: "CallResult option"

text \<open>
  The configuration of an orchestrator is \<open>{...DEFAULT_CONFIG, ...config}\<close> for an argument
  of type \<open>Partial<SwarmConfig>\<close>: a property that the argument holds replaces the default
  also when its value is \<open>undefined\<close>. So the two numbers of a configuration are any number
  or \<open>undefined\<close> (\<open>None\<close>). The two flags are read in conditions only, where \<open>undefined\<close>
  acts as \<open>false\<close>; they are \<open>bool\<close>, with \<open>False\<close> for both. Nothing reads
  \<open>retryFailedCalls\<close>, and \<open>timeoutMs\<close> is read by \<open>setTimeout\<close> only (see \<open>races\<close> below).
\<close>

record SwarmConfig =
  maxConcurrentCalls :: "number option"
  timeoutMs :: "number option"
  stopOnFirstSuccess :: bool
  retryFailedCalls :: bool

definition DEFAULT_CONFIG :: SwarmConfig where
  "DEFAULT_CONFIG = \<lparr>maxConcurrentCalls = Some (Num 5), timeoutMs = Some (Num 15000),
     stopOnFirstSuccess = True, retryFailedCalls = False\<rparr>"

record SwarmResult =
  totalProviders :: nat
  successfulBookings :: "SwarmCallStatus list"
  failedCalls :: "SwarmCallStatus list"
  cancelledCalls :: "SwarmCallStatus list"
  bestMatch :: "SwarmCallStatus option"
  callStatuses :: "SwarmCallStatus list"

text \<open>
  The orchestrator object. \<open>statusMap\<close> is the field \<open>callStatuses\<close>, a \<open>Map\<close> from provider
  id to the one status object of that id, kept in insertion order; \<open>aborted\<close> is
  \<open>abortController.signal.aborted\<close>; \<open>notified\<close> lists the arguments of the calls of
  \<open>onStatusUpdate\<close>, oldest first, each as the status was when the callback was called.
\<close>

record Orchestrator =
  config :: SwarmConfig
  statusMap :: "(string \<times> SwarmCallStatus) list"
  aborted :: bool
  notified :: "SwarmCallStatus list"

text \<open>The constructor, given the merged configuration; no callback has been called yet.\<close>

definition newOrchestrator :: "SwarmConfig \<Rightarrow> Orchestrator" where
  "newOrchestrator cfg = \<lparr>config = cfg, statusMap = [], aborted = False, notified = []\<rparr>"

text \<open>\<open>Map.prototype.set\<close>: a known key keeps its place, a new key goes last.\<close>

fun map_set :: "'k \<Rightarrow> 'v \<Rightarrow> ('k \<times> 'v) list \<Rightarrow> ('k \<times> 'v) list" where
  "map_set k v [] = [(k, v)]"
| "map_set k v ((k', v') # m) = (if k' = k then (k, v) # m else (k', v') # map_set k v m)"

text \<open>
  What is outside the orchestrator's control in one run, per call (numbered by the
  position of its provider in the input): whether the timer settles the race before the
  call, and the value of \<open>Math.random()\<close> in the call.
\<close>

record races =
  timerWins :: "nat \<Rightarrow> bool"
  random :: "nat \<Rightarrow> real"

definition updateStatus :: "Orchestrator \<Rightarrow> SwarmCallStatus \<Rightarrow> Orchestrator" where
  "updateStatus st s =
     st\<lparr>statusMap := map_set (st_providerId s) s (statusMap st), notified := notified st @ [s]\<rparr>"

text \<open>
  \<open>executeCall\<close> up to its \<open>await\<close> (\<open>launch\<close>) and after it (\<open>settle\<close>). The status object
  is the one the map holds for the provider's id; \<open>executeSwarm\<close> has stored one for every
  provider, so the \<open>None\<close> case is not reached from there. \<open>simulateProviderCall\<close> does not
  reject, so the \<open>catch\<close> block has no case.
\<close>

definition launch :: "Orchestrator \<Rightarrow> 'a Provider_scheme \<Rightarrow> Orchestrator" where
  "launch st provider =
     (case map_of (statusMap st) (id_p provider) of
        None \<Rightarrow> st
      | Some s \<Rightarrow> updateStatus st (s\<lparr>status := Calling\<rparr>))"

definition settle :: "host \<Rightarrow> races \<Rightarrow> string \<Rightarrow> string option \<Rightarrow> Orchestrator
    \<Rightarrow> nat \<times> 'a Provider_scheme \<Rightarrow> Orchestrator" where
  "settle h rc requestedSlot serviceDescription st ip =
     (case map_of (statusMap st) (id_p (snd ip)) of
        None \<Rightarrow> st
      | Some s \<Rightarrow>
          if timerWins rc (fst ip) then updateStatus st (s\<lparr>status := Timeout\<rparr>)
          else (let r = simulateProviderCall h (random rc (fst ip)) (id_p (snd ip))
                          requestedSlot serviceDescription
                in updateStatus st
                     (s\<lparr>status := (if success r then Success else Failed), result := Some r\<rparr>)))"

text \<open>
  One batch: every call is launched, in input order, before any continues; the calls
  whose own promise wins the race continue in launch order, those settled by their timer
  after them.
\<close>

definition executeBatch :: "host \<Rightarrow> races \<Rightarrow> string \<Rightarrow> string option \<Rightarrow> Orchestrator
    \<Rightarrow> (nat \<times> 'a Provider_scheme) list \<Rightarrow> Orchestrator" where
  "executeBatch h rc requestedSlot serviceDescription st batch =
     (let st1 = foldl launch st (map snd batch);
          settleOrder = filter (\<lambda>ip. \<not> timerWins rc (fst ip)) batch
                          @ filter (\<lambda>ip. timerWins rc (fst ip)) batch
      in foldl (settle h rc requestedSlot serviceDescription) st1 settleOrder)"

definition cancelRemainingCalls :: "Orchestrator \<Rightarrow> Orchestrator" where
  "cancelRemainingCalls st =
     (foldl (\<lambda>s kv. if status (snd kv) = Pending
                      then updateStatus s ((snd kv)\<lparr>status := Cancelled\<rparr>) else s)
        st (statusMap st))\<lparr>aborted := True\<rparr>"

text \<open>
  The loop over the settled results of a batch. A result is the status object of its
  provider, read when the loop runs; \<open>firstSuccess\<close> holds the id of the status object it
  refers to.
\<close>

fun checkResults :: "Orchestrator \<Rightarrow> string option \<Rightarrow> 'a Provider_scheme list
    \<Rightarrow> Orchestrator \<times> string option" where
  "checkResults st firstSuccess [] = (st, firstSuccess)"
| "checkResults st firstSuccess (p # ps) =
     (if map_option status (map_of (statusMap st) (id_p p)) = Some Success
      then (if firstSuccess = None
            then (if stopOnFirstSuccess (config st)
                  then (cancelRemainingCalls st, Some (id_p p))
                  else checkResults st (Some (id_p p)) ps)
            else checkResults st firstSuccess ps)
      else checkResults st firstSuccess ps)"

fun runBatches :: "host \<Rightarrow> races \<Rightarrow> string \<Rightarrow> string option \<Rightarrow> Orchestrator \<Rightarrow> string option
    \<Rightarrow> (nat \<times> 'a Provider_scheme) list list \<Rightarrow> Orchestrator" where
  "runBatches h rc requestedSlot serviceDescription st firstSuccess [] = st"
| "runBatches h rc requestedSlot serviceDescription st firstSuccess (batch # rest) =
     (if aborted st then st
      else if stopOnFirstSuccess (config st) \<and> firstSuccess \<noteq> None then st
      else (let st1 = executeBatch h rc requestedSlot serviceDescription st batch;
                checked = checkResults st1 firstSuccess (map snd batch)
            in runBatches h rc requestedSlot serviceDescription (fst checked) (snd checked) rest))"

text \<open>
  \<open>Array.prototype.slice(start, end)\<close> with two numbers. \<open>sliceIndex len v\<close> is the index
  that \<open>slice\<close> makes of the argument \<open>v\<close> for an array of length \<open>len\<close>: \<open>v\<close> is
  converted by \<open>ToIntegerOrInfinity\<close> (\<open>NaN\<close> becomes 0, a finite number loses its
  fraction), a negative index counts from the end, and the index is kept between 0 and
  \<open>len\<close>.
\<close>

definition sliceIndex :: "nat \<Rightarrow> number \<Rightarrow> int" where
  "sliceIndex len v =
     (case v of
        NaN \<Rightarrow> 0
      | PosInf \<Rightarrow> int len
      | NegInf \<Rightarrow> 0
      | Num x \<Rightarrow>
          (let rel = (if 0 \<le> x then \<lfloor>x\<rfloor> else \<lceil>x\<rceil>)
           in if rel < 0 then max (int len + rel) 0 else min rel (int len)))"

definition js_slice :: "'a list \<Rightarrow> number \<Rightarrow> number \<Rightarrow> 'a list" where
  "js_slice xs start fin =
     (let k = sliceIndex (length xs) start;
          final = sliceIndex (length xs) fin
      in take (nat (final - k)) (drop (nat k) xs))"

text \<open>
  \<open>createBatches\<close>: the loop \<open>for (let i = 0; i < items.length; i += batchSize)\<close>, with
  \<open>None\<close> for a loop that does not end (as for a batch size that is zero or negative, when
  there is an item). When \<open>batchSize\<close> is \<open>undefined\<close> or \<open>NaN\<close>, \<open>i + batchSize\<close> is \<open>NaN\<close>: the one
  batch is \<open>items.slice(0, NaN)\<close>, which is empty, and the loop ends because \<open>NaN < n\<close> is
  false.
\<close>

partial_function (option) createBatches_from :: "'a list \<Rightarrow> number option \<Rightarrow> number \<Rightarrow> 'a list list \<Rightarrow> 'a list list option" where
  "createBatches_from items batchSize i batches =
     (if js_less i (Num (real (length items)))
      then createBatches_from items batchSize (js_add i (toNumber batchSize))
             (batches @ [js_slice items i (js_add i (toNumber batchSize))])
      else Some batches)"

declare createBatches_from.simps [code]

definition createBatches :: "'a list \<Rightarrow> number option \<Rightarrow> 'a list list option" where
  "createBatches items batchSize = createBatches_from items batchSize (Num 0) []"

text \<open>
  \<open>selectBestMatch\<close>. \<open>bookedTime\<close> is \<open>new Date(s.result!.bookedSlot!).getTime()\<close> and
  \<open>ratingOrZero\<close> is \<open>getProvider(id)?.rating || 0\<close>. In the comparator \<open>aTime !== bTime\<close>
  holds as soon as one time is \<open>NaN\<close>; the difference is then \<open>NaN\<close>, which \<open>sort\<close> takes
  for 0. The comparator's value is the exact difference here: \<open>sort\<close> uses its sign only,
  and the rounded difference of two doubles has the sign of the exact one (lemma
  \<open>fsub_sign\<close> below).
\<close>

definition bookedTime :: "host \<Rightarrow> SwarmCallStatus \<Rightarrow> int option" where
  "bookedTime h s =
     (case result s of None \<Rightarrow> None
      | Some r \<Rightarrow> (case bookedSlot r of None \<Rightarrow> None | Some b \<Rightarrow> getTime h b))"

definition ratingOrZero :: "host \<Rightarrow> string \<Rightarrow> real" where
  "ratingOrZero h pid = (case getProvider h pid of None \<Rightarrow> 0 | Some p \<Rightarrow> rating p)"

definition compareStatuses :: "host \<Rightarrow> SwarmCallStatus \<Rightarrow> SwarmCallStatus \<Rightarrow> real" where
  "compareStatuses h a b =
     (case bookedTime h a of None \<Rightarrow> 0
      | Some aTime \<Rightarrow>
          (case bookedTime h b of None \<Rightarrow> 0
           | Some bTime \<Rightarrow>
               if aTime \<noteq> bTime then real_of_int (aTime - bTime)
               else ratingOrZero h (st_providerId b) - ratingOrZero h (st_providerId a)))"

text \<open>\<open>s.status === 'success' && s.result?.bookedSlot\<close>: the empty string is falsy.\<close>

definition hasBooking :: "SwarmCallStatus \<Rightarrow> bool" where
  "hasBooking s =
     (status s = Success \<and>
      (case result s of None \<Rightarrow> False
       | Some r \<Rightarrow> (case bookedSlot r of None \<Rightarrow> False | Some b \<Rightarrow> b \<noteq> [])))"

definition selectBestMatch :: "host \<Rightarrow> SwarmCallStatus list \<Rightarrow> SwarmCallStatus option" where
  "selectBestMatch h statuses =
     (let successful = filter hasBooking statuses
      in if length successful = 0 then None
         else (case js_sort (compareStatuses h) successful of [] \<Rightarrow> None | s # _ \<Rightarrow> Some s))"

text \<open>
  \<open>executeSwarm\<close> on an orchestrator \<open>orch\<close>: the result and the orchestrator afterwards, or
  \<open>None\<close> when \<open>createBatches\<close> does not return.
\<close>

definition initStatuses :: "Orchestrator \<Rightarrow> 'a Provider_scheme list \<Rightarrow> Orchestrator" where
  "initStatuses st providers =
     foldl (\<lambda>s p. s\<lparr>statusMap := map_set (id_p p)
                       \<lparr>st_providerId = id_p p, st_providerName = name p,
                        status = Pending, result = None\<rparr> (statusMap s)\<rparr>)
       st providers"

definition executeSwarm :: "host \<Rightarrow> races \<Rightarrow> Orchestrator \<Rightarrow> 'a Provider_scheme list \<Rightarrow> string
    \<Rightarrow> string option \<Rightarrow> (SwarmResult \<times> Orchestrator) option" where
  "executeSwarm h rc orch providers requestedSlot serviceDescription =
     (let st0 = initStatuses (orch\<lparr>aborted := False, statusMap := []\<rparr>) providers
      in case createBatches (zip [0..<length providers] providers)
                (maxConcurrentCalls (config st0)) of
           None \<Rightarrow> None
         | Some batches \<Rightarrow>
             (let st1 = runBatches h rc requestedSlot serviceDescription st0 None batches;
                  allStatuses = map snd (statusMap st1)
              in Some (\<lparr>totalProviders = length providers,
                         successfulBookings = filter (\<lambda>s. status s = Success) allStatuses,
                         failedCalls = filter (\<lambda>s. status s = Failed \<or> status s = Timeout) allStatuses,
                         cancelledCalls = filter (\<lambda>s. status s = Cancelled) allStatuses,
                         bestMatch = selectBestMatch h allStatuses,
                         callStatuses = allStatuses\<rparr>, st1)))"

section \<open>The ranking on an explicit store\<close>

text \<open>
  \<open>rankProviders\<close> once more, with the objects it reads and creates in a store, so that
  what it writes is visible: an address is an index of the store, and an allocation
  appends. \<open>providers.map(...)\<close> allocates one object per provider (the spread
  \<open>{...provider, finalScore, matchingSlots}\<close>) and the array of their addresses; \<open>sort\<close>
  then reorders that new array in place. A store in which the argument is not the
  address of an array of providers has no result (\<open>None\<close>); the types of the source
  exclude it.
\<close>

datatype obj = ProviderObj Provider | RankedObj RankedProvider | ArrayObj "nat list"

type_synonym store = "obj list"

definition alloc :: "store \<Rightarrow> obj \<Rightarrow> store \<times> nat" where
  "alloc hp ob = (hp @ [ob], length hp)"

definition providerAt :: "store \<Rightarrow> nat \<Rightarrow> Provider option" where
  "providerAt hp a = (case nth_opt hp a of Some (ProviderObj p) \<Rightarrow> Some p | _ \<Rightarrow> None)"

definition rankedObjAt :: "store \<Rightarrow> nat \<Rightarrow> RankedProvider option" where
  "rankedObjAt hp a = (case nth_opt hp a of Some (RankedObj r) \<Rightarrow> Some r | _ \<Rightarrow> None)"

definition scoreProvider_st :: "host \<Rightarrow> store \<Rightarrow> nat \<Rightarrow> AppointmentIntent \<Rightarrow> RankingWeights
    \<Rightarrow> (store \<times> nat) option" where
  "scoreProvider_st h hp a intent weights =
     (case providerAt hp a of
        Some provider \<Rightarrow> Some (alloc hp (RankedObj (scoreProvider h provider intent weights)))
      | None \<Rightarrow> None)"

fun map_score_st :: "host \<Rightarrow> store \<Rightarrow> nat list \<Rightarrow> AppointmentIntent \<Rightarrow> RankingWeights
    \<Rightarrow> (store \<times> nat list) option" where
  "map_score_st h hp [] intent weights = Some (hp, [])"
| "map_score_st h hp (a # as) intent weights =
     (case scoreProvider_st h hp a intent weights of
        None \<Rightarrow> None
      | Some (hp1, r) \<Rightarrow>
          (case map_score_st h hp1 as intent weights of
             None \<Rightarrow> None
           | Some (hp2, rs) \<Rightarrow> Some (hp2, r # rs)))"

definition finalScoreAt :: "store \<Rightarrow> nat \<Rightarrow> real" where
  "finalScoreAt hp a = (case rankedObjAt hp a of Some r \<Rightarrow> finalScore r | None \<Rightarrow> 0)"

definition rankProviders_st :: "host \<Rightarrow> store \<Rightarrow> nat \<Rightarrow> AppointmentIntent \<Rightarrow> RankingWeights
    \<Rightarrow> (store \<times> nat) option" where
  "rankProviders_st h hp providers intent weights =
     (case nth_opt hp providers of
        Some (ArrayObj as) \<Rightarrow>
          (case map_score_st h hp as intent weights of
             None \<Rightarrow> None
           | Some (hp1, rs) \<Rightarrow>
               (let (hp2, mapped) = alloc hp1 (ArrayObj rs);
                    sorted = js_sort (\<lambda>a b. fsub (finalScoreAt hp2 b) (finalScoreAt hp2 a)) rs
                in Some (hp2[mapped := ArrayObj sorted], mapped)))
      | _ \<Rightarrow> None)"

text \<open>Reading an array of providers, and an array of ranked providers, out of a store.\<close>

definition providersAt :: "store \<Rightarrow> nat \<Rightarrow> Provider list option" where
  "providersAt hp a =
     (case nth_opt hp a of Some (ArrayObj as) \<Rightarrow> those (map (providerAt hp) as) | _ \<Rightarrow> None)"

definition rankedAt :: "store \<Rightarrow> nat \<Rightarrow> RankedProvider list option" where
  "rankedAt hp a =
     (case nth_opt hp a of Some (ArrayObj as) \<Rightarrow> those (map (rankedObjAt hp) as) | _ \<Rightarrow> None)"

section \<open>A concrete host\<close>

text \<open>
  An instance of the host, used to run the definitions on examples: dates are the
  ECMAScript date-time strings \<open>YYYY-MM-DDTHH:mm:ss\<close>, read as local time, or as UTC when
  \<open>Z\<close> follows; the local zone is \<open>tz\<close> minutes ahead of UTC. Any other string is an
  invalid date in this instance.
\<close>

definition natOfDigits :: "string \<Rightarrow> nat option" where
  "natOfDigits s =
     (if s \<noteq> [] \<and> list_all isDigit s
      then Some (foldl (\<lambda>acc c. acc * 10 + digitVal c) 0 s) else None)"

definition daysFromCivil :: "int \<Rightarrow> int \<Rightarrow> int \<Rightarrow> int" where
  "daysFromCivil y m d =
     (let y1 = (if m \<le> 2 then y - 1 else y);
          era = y1 div 400;
          yoe = y1 - era * 400;
          doy = (153 * (if m > 2 then m - 3 else m + 9) + 2) div 5 + d - 1;
          doe = yoe * 365 + yoe div 4 - yoe div 100 + doy
      in era * 146097 + doe - 719468)"

definition daysInMonth :: "int \<Rightarrow> int \<Rightarrow> int" where
  "daysInMonth y m =
     (if m = 2 then (if y mod 4 = 0 \<and> (y mod 100 \<noteq> 0 \<or> y mod 400 = 0) then 29 else 28)
      else if m = 4 \<or> m = 6 \<or> m = 9 \<or> m = 11 then 30 else 31)"

text \<open>The epoch milliseconds and the local hour of a date-time string.\<close>

definition isoDateTime :: "int \<Rightarrow> string \<Rightarrow> (int \<times> int) option" where
  "isoDateTime tz s =
     (let body = take 19 s; suffix = drop 19 s
      in if length body = 19 \<and> (suffix = [] \<or> suffix = ''Z'')
            \<and> body ! 4 = CHR ''-'' \<and> body ! 7 = CHR ''-'' \<and> body ! 10 = CHR ''T''
            \<and> body ! 13 = CHR '':'' \<and> body ! 16 = CHR '':''
         then (case (natOfDigits (take 4 body), natOfDigits (take 2 (drop 5 body)),
                     natOfDigits (take 2 (drop 8 body)), natOfDigits (take 2 (drop 11 body)),
                     natOfDigits (take 2 (drop 14 body)), natOfDigits (take 2 (drop 17 body))) of
                 (Some y, Some mo, Some d, Some hh, Some mi, Some ss) \<Rightarrow>
                   if 1 \<le> mo \<and> mo \<le> 12 \<and> 1 \<le> d \<and> int d \<le> daysInMonth (int y) (int mo)
                      \<and> hh \<le> 23 \<and> mi \<le> 59 \<and> ss \<le> 59
                   then (let civil = (daysFromCivil (int y) (int mo) (int d) * 86400
                                        + int hh * 3600 + int mi * 60 + int ss) * 1000
                         in if suffix = [] then Some (civil - tz * 60000, int hh)
                            else Some (civil, ((civil + tz * 60000) div 3600000) mod 24))
                   else None
               | _ \<Rightarrow> None)
         else None)"

definition asciiUpper :: "char \<Rightarrow> char" where
  "asciiUpper c =
     (if 97 \<le> (of_char c :: nat) \<and> (of_char c :: nat) \<le> 122
      then char_of ((of_char c :: nat) - 32) else c)"

definition demoDirectory :: "Provider list" where
  "demoDirectory =
     [\<lparr>id_p = ''prov_001'', name = ''Bright Smile Dental'', phone = ''+1-555-010-0001'',
       category = ''dentist'', rating = 5.0, address = ''1 Main St'', distanceMiles = 0,
       availableSlots = [''2026-02-10T10:00:00'', ''2026-02-10T15:00:00''], metadata = None\<rparr>,
      \<lparr>id_p = ''prov_002'', name = ''Downtown Dental'', phone = ''+1-555-010-0002'',
       category = ''dentist'', rating = binary64 4.2, address = ''2 Main St'', distanceMiles = 2.5,
       availableSlots = [''2026-02-10T23:00:00'', ''2026-02-10T10:30:00''], metadata = None\<rparr>,
      \<lparr>id_p = ''prov_003'', name = ''Quick Fix Dental'', phone = ''+1-555-010-0003'',
       category = ''dentist'', rating = 3.5, address = ''3 Main St'', distanceMiles = 7,
       availableSlots = [''2026-02-10T15:00:00Z''], metadata = None\<rparr>,
      \<lparr>id_p = ''prov_004'', name = ''Harbor Dental'', phone = ''+1-555-010-0004'',
       category = ''dentist'', rating = binary64 4.8, address = ''4 Main St'', distanceMiles = 1,
       availableSlots = [''2026-02-10T10:00:00''], metadata = None\<rparr>]"

text \<open>The zone is five hours behind UTC (\<open>America/New_York\<close> in February).\<close>

definition demoHost :: host where
  "demoHost =
     \<lparr>directory = demoDirectory,
      getTime = (\<lambda>s. map_option fst (isoDateTime (- 300) s)),
      getHours = (\<lambda>s. map_option snd (isoDateTime (- 300) s)),
      formatSlot = (\<lambda>s. s),
      toUpperCase = map asciiUpper,
      todayStr = ''2026-02-10'',
      tomorrowStr = ''2026-02-11''\<rparr>"

definition demoIntent :: AppointmentIntent where
  "demoIntent =
     \<lparr>userId = ''user_1'', serviceType = ''dentist'', userLocation = None,
      preferredTimeRange = \<lparr>start_t = ''2026-02-10T09:00:00'', end_t = ''2026-02-10T12:00:00''\<rparr>,
      maxDistanceMiles = 10, intent_status = Searching\<rparr>"

section \<open>Notions used in the proofs about the orchestrator\<close>

text \<open>
  A status map is well formed when no key occurs twice and every status is stored under
  its own \<open>providerId\<close>; \<open>executeSwarm\<close> builds such a map and keeps it so. \<open>stat\<close> reads the
  state of the status stored for an id, \<open>keys\<close> lists the ids in map order.
\<close>

definition wf_map :: "(string \<times> SwarmCallStatus) list \<Rightarrow> bool" where
  "wf_map m = (distinct (map fst m) \<and> list_all (\<lambda>kv. st_providerId (snd kv) = fst kv) m)"

definition stat :: "Orchestrator \<Rightarrow> string \<Rightarrow> CallState option" where
  "stat st k = map_option status (map_of (statusMap st) k)"

definition keys :: "Orchestrator \<Rightarrow> string list" where
  "keys st = map fst (statusMap st)"

definition settled :: "CallState \<Rightarrow> bool" where
  "settled c = (c = Success \<or> c = Failed \<or> c = Timeout)"

text \<open>The bodies of the loops of \<open>cancelRemainingCalls\<close> and of the initialisation.\<close>

definition cancelStep :: "Orchestrator \<Rightarrow> string \<times> SwarmCallStatus \<Rightarrow> Orchestrator" where
  "cancelStep s kv = (if status (snd kv) = Pending
                      then updateStatus s ((snd kv)\<lparr>status := Cancelled\<rparr>) else s)"

definition cancelled_of :: "SwarmCallStatus \<Rightarrow> SwarmCallStatus" where
  "cancelled_of s = (if status s = Pending then s\<lparr>status := Cancelled\<rparr> else s)"

definition initStep :: "Orchestrator \<Rightarrow> 'a Provider_scheme \<Rightarrow> Orchestrator" where
  "initStep s p = s\<lparr>statusMap := map_set (id_p p)
                       \<lparr>st_providerId = id_p p, st_providerName = name p,
                        status = Pending, result = None\<rparr> (statusMap s)\<rparr>"

text \<open>
  The order that the comparator of \<open>selectBestMatch\<close> induces on statuses whose booked
  times are valid: earlier time first, then higher rating; \<open>tied\<close> when both agree.
\<close>

definition better :: "host \<Rightarrow> SwarmCallStatus \<Rightarrow> SwarmCallStatus \<Rightarrow> bool" where
  "better h b s = (\<exists>tb ts. bookedTime h b = Some tb \<and> bookedTime h s = Some ts
      \<and> (tb < ts \<or> (tb = ts \<and> ratingOrZero h (st_providerId s) \<le> ratingOrZero h (st_providerId b))))"

definition tied :: "host \<Rightarrow> SwarmCallStatus \<Rightarrow> SwarmCallStatus \<Rightarrow> bool" where
  "tied h b s = (bookedTime h s = bookedTime h b
      \<and> ratingOrZero h (st_providerId s) = ratingOrZero h (st_providerId b))"

text \<open>
  A \<open>success\<close> status comes from a call: its result is what \<open>simulateProviderCall\<close>
  returned for its provider id, with \<open>success = true\<close>.
\<close>

definition fromCall :: "host \<Rightarrow> string \<Rightarrow> string option \<Rightarrow> SwarmCallStatus \<Rightarrow> bool" where
  "fromCall h slot desc s =
     (status s = Success \<longrightarrow>
        (\<exists>rnd. result s = Some (simulateProviderCall h rnd (st_providerId s) slot desc)
           \<and> success (simulateProviderCall h rnd (st_providerId s) slot desc)))"

definition resultsOk :: "host \<Rightarrow> string \<Rightarrow> string option \<Rightarrow> Orchestrator \<Rightarrow> bool" where
  "resultsOk h slot desc st = (\<forall>k s. map_of (statusMap st) k = Some s \<longrightarrow> fromCall h slot desc s)"

section \<open>Example runs of the orchestrator\<close>

text \<open>
  In the examples no timer wins a race. In \<open>demoRaces\<close> every random draw is 0; in
  \<open>demoRaces2\<close> the draw of the first call is 0.95, so that call fails. \<open>demoOrch2\<close> places
  two calls at a time and \<open>demoOrch1\<close> one; \<open>demoStart1\<close> is the orchestrator after the
  initialisation of \<open>executeSwarm\<close> on \<open>demoOrch1\<close> for the four example providers, whose
  batches are \<open>demoPre\<close>, \<open>demoBatch\<close> and \<open>demoRest\<close>.
\<close>

definition demoRaces :: races where
  "demoRaces = \<lparr>timerWins = (\<lambda>i. False), random = (\<lambda>i. 0)\<rparr>"

definition demoProviders :: "Provider list" where
  "demoProviders = [demoDirectory ! 2, demoDirectory ! 3, demoDirectory ! 0, demoDirectory ! 1]"

definition demoSlot :: string where
  "demoSlot = ''2026-02-10T10:00:00''"

definition demoOrch2 :: Orchestrator where
  "demoOrch2 = newOrchestrator (DEFAULT_CONFIG\<lparr>maxConcurrentCalls := Some (Num 2)\<rparr>)"

definition demoRaces2 :: races where
  "demoRaces2 = \<lparr>timerWins = (\<lambda>i. False), random = (\<lambda>i. if i = 0 then binary64 0.95 else 0)\<rparr>"

definition demoOrch1 :: Orchestrator where
  "demoOrch1 = newOrchestrator (DEFAULT_CONFIG\<lparr>maxConcurrentCalls := Some (Num 1)\<rparr>)"

definition demoStart1 :: Orchestrator where
  "demoStart1 = initStatuses (demoOrch1\<lparr>aborted := False, statusMap := []\<rparr>) demoProviders"

definition demoPre :: "(nat \<times> Provider) list list" where
  "demoPre = [[(0, demoDirectory ! 2)]]"

definition demoBatch :: "(nat \<times> Provider) list" where
  "demoBatch = [(1, demoDirectory ! 3)]"

definition demoRest :: "(nat \<times> Provider) list list" where
  "demoRest = [[(2, demoDirectory ! 0)], [(3, demoDirectory ! 1)]]"

text \<open>A store that holds the four example providers and, at address 4, the array of them.\<close>

definition demoStore :: store where
  "demoStore = map ProviderObj demoDirectory @ [ArrayObj [0, 1, 2, 3]]"

section \<open>Properties\<close>

subsection \<open>Facts about the rounding\<close>

text \<open>
  \<open>expo x\<close> is the exponent of \<open>x\<close> (\<open>expo_lower\<close>, \<open>expo_upper\<close>). \<open>binary64 x\<close> is a multiple of
  \<open>2^-1074\<close> (\<open>binary64_multiple\<close>), at most half a unit of the last place away from \<open>x\<close>
  (\<open>binary64_error\<close>), and \<open>x\<close> itself when \<open>x\<close> is a double (\<open>binary64_exact\<close>, \<open>binary64_int\<close>,
  \<open>binary64_idem\<close>). The rounded difference of two doubles has the sign of their exact
  difference (\<open>fsub_sign\<close>).
\<close>

lemma pow2_powi: "pow2 e = 2 powi e"
  by (simp add: pow2_def power_int_def inverse_eq_divide power_one_over)

lemma pow2_pos [simp]: "0 < pow2 e"
  by (simp add: pow2_powi)

lemma pow2_nonneg [simp]: "0 \<le> pow2 e"
  using pow2_pos [of e] by linarith

lemma pow2_not_le0 [simp]: "\<not> pow2 e \<le> 0"
  using pow2_pos [of e] by linarith

lemma pow2_not_less0 [simp]: "\<not> pow2 e < 0"
  using pow2_pos [of e] by linarith

lemma pow2_neq0 [simp]: "pow2 e \<noteq> 0"
  using pow2_pos [of e] by linarith

lemma pow2_abs [simp]: "\<bar>pow2 e\<bar> = pow2 e"
  by simp

lemma pow2_add: "pow2 (a + b) = pow2 a * pow2 b"
  by (simp add: pow2_powi power_int_add)

lemma pow2_mono: "a \<le> b \<Longrightarrow> pow2 a \<le> pow2 b"
  by (simp add: pow2_powi power_int_increasing)

lemma pow2_less_cancel: "pow2 a < pow2 b \<Longrightarrow> a < b"
  using pow2_mono [of b a] by (cases "a < b") auto

lemma pow2_nat: "0 \<le> e \<Longrightarrow> pow2 e = of_int (2 ^ nat e)"
  by (simp add: pow2_def)

lemma expo_lower: "x \<noteq> 0 \<Longrightarrow> pow2 (expo x) \<le> \<bar>x\<bar>"
proof (cases "1 \<le> \<bar>x\<bar>")
  case True
  let ?n = "\<lfloor>\<bar>x\<bar>\<rfloor>"
  have n: "0 < ?n" using True by simp
  have b: "2 ^ nat (bitlen ?n - 1) \<le> ?n" using bitlen_bounds [OF n] by simp
  have "1 \<le> bitlen ?n" using n bitlen_eq_zero_iff [of ?n] bitlen_nonneg [of ?n] by linarith
  then have "pow2 (expo x) = of_int (2 ^ nat (bitlen ?n - 1))"
    using True by (simp add: expo_def pow2_nat)
  also have "\<dots> \<le> of_int ?n" using b by (simp only: of_int_le_iff)
  also have "\<dots> \<le> \<bar>x\<bar>" by simp
  finally show ?thesis .
next
  case False
  assume x: "x \<noteq> 0"
  let ?z = "1 / \<bar>x\<bar>"
  let ?c = "\<lceil>?z\<rceil>"
  let ?k = "bitlen (?c - 1)"
  have z: "1 < ?z" using False x by simp
  then have c: "0 < ?c - 1" by linarith
  have "?c - 1 < 2 ^ nat ?k" using bitlen_bounds [OF c] by simp
  then have "?c \<le> 2 ^ nat ?k" by simp
  then have "of_int ?c \<le> (of_int (2 ^ nat ?k) :: real)" by (simp only: of_int_le_iff)
  moreover have "(of_int (2 ^ nat ?k) :: real) = 2 ^ nat ?k" by simp
  moreover have "?z \<le> of_int ?c" by (rule le_of_int_ceiling)
  ultimately have zk: "?z \<le> 2 ^ nat ?k" by linarith
  have k0: "0 \<le> ?k" by (rule bitlen_nonneg)
  have "pow2 (expo x) = 1 / 2 ^ nat ?k"
    using False k0 by (simp add: expo_def pow2_def)
  also have "\<dots> \<le> \<bar>x\<bar>"
  proof -
    have "1 \<le> 2 ^ nat ?k * \<bar>x\<bar>" using zk x by (simp add: field_simps)
    then show ?thesis by (simp add: field_simps)
  qed
  finally show ?thesis .
qed

lemma expo_upper: "x \<noteq> 0 \<Longrightarrow> \<bar>x\<bar> < pow2 (expo x + 1)"
proof (cases "1 \<le> \<bar>x\<bar>")
  case True
  let ?n = "\<lfloor>\<bar>x\<bar>\<rfloor>"
  have n: "0 < ?n" using True by simp
  have b: "?n < 2 ^ nat (bitlen ?n)" using bitlen_bounds [OF n] by simp
  then have "?n + 1 \<le> 2 ^ nat (bitlen ?n)" by simp
  then have "of_int (?n + 1) \<le> (of_int (2 ^ nat (bitlen ?n)) :: real)" by (simp only: of_int_le_iff)
  moreover have "\<bar>x\<bar> < of_int (?n + 1)" by linarith
  ultimately have "\<bar>x\<bar> < of_int (2 ^ nat (bitlen ?n))" by linarith
  moreover have "pow2 (expo x + 1) = of_int (2 ^ nat (bitlen ?n))"
    using True bitlen_nonneg [of ?n] by (simp add: expo_def pow2_nat)
  ultimately show ?thesis by simp
next
  case False
  assume x: "x \<noteq> 0"
  let ?z = "1 / \<bar>x\<bar>"
  let ?c = "\<lceil>?z\<rceil>"
  let ?k = "bitlen (?c - 1)"
  have z: "1 < ?z" using False x by simp
  then have c: "0 < ?c - 1" by linarith
  have k1: "1 \<le> ?k" using c bitlen_eq_zero_iff [of "?c - 1"] bitlen_nonneg [of "?c - 1"] by linarith
  have "2 ^ nat (?k - 1) \<le> ?c - 1" using bitlen_bounds [OF c] by simp
  then have "of_int (2 ^ nat (?k - 1)) \<le> (of_int (?c - 1) :: real)" by (simp only: of_int_le_iff)
  moreover have "of_int (?c - 1) < ?z" by linarith
  ultimately have lt: "2 ^ nat (?k - 1) < ?z" by simp
  have "pow2 (expo x + 1) = 1 / 2 ^ nat (?k - 1)"
  proof (cases "?k = 1")
    case True
    then show ?thesis using False by (simp add: expo_def pow2_def)
  next
    case False
    then have "- ?k + 1 < 0" using k1 by simp
    moreover have "nat (?k - 1) = nat (- (- ?k + 1))" by simp
    ultimately show ?thesis using \<open>\<not> 1 \<le> \<bar>x\<bar>\<close> by (simp add: expo_def pow2_def)
  qed
  moreover have "\<bar>x\<bar> < 1 / 2 ^ nat (?k - 1)"
  proof -
    have "2 ^ nat (?k - 1) * \<bar>x\<bar> < 1" using lt x by (simp add: field_simps)
    then show ?thesis by (simp add: field_simps)
  qed
  ultimately show ?thesis by simp
qed

lemma roundEven_int [simp]: "roundEven (of_int k) = k"
  by (simp add: roundEven_def)

lemma roundEven_ge1: "1 \<le> r \<Longrightarrow> 1 \<le> roundEven r"
proof -
  assume "1 \<le> r"
  then have "1 \<le> \<lfloor>r\<rfloor>" by simp
  then show ?thesis by (auto simp: roundEven_def Let_def)
qed

lemma roundEven_nonpos: "r \<le> 0 \<Longrightarrow> roundEven r \<le> 0"
proof -
  assume r: "r \<le> 0"
  show ?thesis
  proof (cases "r = of_int \<lfloor>r\<rfloor>")
    case True
    then have "roundEven r = \<lfloor>r\<rfloor>" by (metis roundEven_int)
    then show ?thesis using r by simp
  next
    case False
    then have "of_int \<lfloor>r\<rfloor> < r" using of_int_floor_le [of r] by linarith
    then have "of_int \<lfloor>r\<rfloor> < (0::real)" using r by linarith
    then have "\<lfloor>r\<rfloor> < 0" by simp
    then show ?thesis by (auto simp: roundEven_def Let_def)
  qed
qed

lemma roundEven_near: "\<bar>of_int (roundEven r) - r\<bar> \<le> 1 / 2"
  unfolding roundEven_def Let_def by (auto simp: abs_if) linarith+

text \<open>Every value of \<open>binary64\<close> is a multiple of \<open>2^-1074\<close>.\<close>

lemma binary64_multiple: "\<exists>k::int. binary64 x = of_int k * pow2 (- 1074)"
proof (cases "x = 0")
  case True
  then show ?thesis by (intro exI [of _ 0]) (simp add: binary64_def)
next
  case False
  let ?t = "max (expo x - 52) (- 1074)"
  have "0 \<le> ?t + 1074" by simp
  then have "pow2 (?t + 1074) = of_int (2 ^ nat (?t + 1074))" by (rule pow2_nat)
  moreover have "pow2 ?t = pow2 (?t + 1074) * pow2 (- 1074)"
    by (simp only: pow2_add [symmetric]) simp
  ultimately have "binary64 x
      = of_int (roundEven (x / pow2 ?t) * 2 ^ nat (?t + 1074)) * pow2 (- 1074)"
    using False by (simp add: binary64_def Let_def)
  then show ?thesis by blast
qed

lemma binary64_nonpos: "x \<le> 0 \<Longrightarrow> binary64 x \<le> 0"
proof -
  assume x: "x \<le> 0"
  have "roundEven (x / pow2 e) \<le> 0" for e
    using x by (intro roundEven_nonpos) (simp add: divide_le_0_iff less_imp_le)
  then have "of_int (roundEven (x / pow2 e)) * pow2 e \<le> 0" for e
    by (simp add: mult_le_0_iff less_imp_le)
  then show ?thesis by (simp add: binary64_def Let_def)
qed

lemma binary64_pos:
  assumes "x = of_int k * pow2 (- 1074)" "0 < x"
  shows "0 < binary64 x"
proof -
  let ?t = "max (expo x - 52) (- 1074)"
  have x0: "x \<noteq> 0" using assms(2) by simp
  have k: "0 < k" using assms by (simp add: zero_less_mult_iff)
  have "1 \<le> x / pow2 ?t"
  proof (cases "expo x - 52 \<le> - 1074")
    case True
    then have "?t = - 1074" by simp
    then have "x / pow2 ?t = of_int k" using assms(1) by simp
    then show ?thesis using k by simp
  next
    case False
    then have t: "?t = expo x - 52" by simp
    have "pow2 (expo x) \<le> x" using expo_lower [OF x0] assms(2) by simp
    moreover have "pow2 ?t \<le> pow2 (expo x)" unfolding t by (rule pow2_mono) simp
    ultimately have "pow2 ?t \<le> x" by linarith
    then show ?thesis by (simp add: field_simps)
  qed
  then have "1 \<le> roundEven (x / pow2 ?t)" by (rule roundEven_ge1)
  then have "0 < of_int (roundEven (x / pow2 ?t)) * pow2 ?t" by (simp add: zero_less_mult_iff)
  then show ?thesis using x0 by (simp add: binary64_def Let_def)
qed

text \<open>The difference of two doubles has the sign of the exact difference.\<close>

lemma fsub_sign: "fsub (binary64 x) (binary64 y) \<le> 0 \<longleftrightarrow> binary64 x \<le> binary64 y"
proof -
  obtain k l :: int where x: "binary64 x = of_int k * pow2 (- 1074)"
    and y: "binary64 y = of_int l * pow2 (- 1074)"
    using binary64_multiple by blast
  have d: "binary64 x - binary64 y = of_int (k - l) * pow2 (- 1074)"
    by (simp add: x y algebra_simps)
  show ?thesis
  proof (cases "binary64 x \<le> binary64 y")
    case True
    then show ?thesis using binary64_nonpos [of "binary64 x - binary64 y"] by (simp add: fsub_def)
  next
    case False
    then have "0 < binary64 x - binary64 y" by simp
    then have "0 < fsub (binary64 x) (binary64 y)" unfolding fsub_def using d by (intro binary64_pos)
    then show ?thesis using False by simp
  qed
qed

text \<open>A number with a significand below \<open>2^53\<close> and an exponent of at least -1074 is a double.\<close>

lemma binary64_exact:
  assumes "x = of_int m * pow2 e" "\<bar>m\<bar> < 2 ^ 53" "- 1074 \<le> e"
  shows "binary64 x = x"
proof (cases "x = 0")
  case True
  then show ?thesis by (simp add: binary64_def)
next
  case False
  let ?t = "max (expo x - 52) (- 1074)"
  have "\<bar>x\<bar> = of_int \<bar>m\<bar> * pow2 e" using assms(1) by (simp add: abs_mult)
  also have "\<dots> < of_int (2 ^ 53) * pow2 e"
    using assms(2) by (intro mult_strict_right_mono) (simp_all only: of_int_less_iff pow2_pos)
  also have "\<dots> = pow2 (53 + e)"
  proof -
    have "pow2 53 = of_int (2 ^ 53)" by (simp add: pow2_def)
    then show ?thesis by (simp only: pow2_add)
  qed
  finally have "pow2 (expo x) < pow2 (53 + e)" using expo_lower [OF False] by linarith
  then have "expo x < 53 + e" by (rule pow2_less_cancel)
  then have te: "?t \<le> e" using assms(3) by simp
  then have "0 \<le> e - ?t" by simp
  then have p: "pow2 (e - ?t) = of_int (2 ^ nat (e - ?t))" by (rule pow2_nat)
  have "pow2 e = pow2 (e - ?t) * pow2 ?t" by (simp only: pow2_add [symmetric]) simp
  then have "x = of_int m * pow2 (e - ?t) * pow2 ?t" using assms(1) by simp
  then have "x / pow2 ?t = of_int m * pow2 (e - ?t)" by (simp add: field_simps)
  then have q: "x / pow2 ?t = of_int (m * 2 ^ nat (e - ?t))"
    using p by simp
  have "of_int (roundEven (x / pow2 ?t)) * pow2 ?t = x / pow2 ?t * pow2 ?t"
    by (simp only: q roundEven_int)
  then have "of_int (roundEven (x / pow2 ?t)) * pow2 ?t = x" by simp
  then show ?thesis using False by (simp add: binary64_def Let_def)
qed

lemma binary64_int: "\<bar>k\<bar> \<le> 2 ^ 53 \<Longrightarrow> binary64 (of_int k) = of_int k"
proof (cases "\<bar>k\<bar> < 2 ^ 53")
  case True
  then show ?thesis using binary64_exact [of "of_int k" k 0] by (simp add: pow2_def)
next
  case False
  assume "\<bar>k\<bar> \<le> 2 ^ 53"
  then have "k = 2 ^ 53 \<or> k = - (2 ^ 53)" using False by linarith
  then show ?thesis
    using binary64_exact [of "of_int k" 1 53] binary64_exact [of "of_int k" "- 1" 53]
    by (auto simp: pow2_def)
qed

lemma roundEven_bound:
  assumes "\<bar>r\<bar> < 2 ^ 53"
  shows "\<bar>roundEven r\<bar> \<le> 2 ^ 53"
proof -
  have "(of_int (- (2 ^ 53)) :: real) \<le> r" using assms by simp
  then have lo: "- (2 ^ 53) \<le> \<lfloor>r\<rfloor>" by (simp only: le_floor_iff)
  have "r < of_int (2 ^ 53)" using assms by simp
  then have hi: "\<lfloor>r\<rfloor> < 2 ^ 53" by (simp only: floor_less_iff)
  have "roundEven r = \<lfloor>r\<rfloor> \<or> roundEven r = \<lfloor>r\<rfloor> + 1"
    by (auto simp: roundEven_def Let_def)
  then show ?thesis using lo hi by linarith
qed

lemma binary64_idem [simp]: "binary64 (binary64 x) = binary64 x"
proof (cases "x = 0")
  case True
  then show ?thesis by (simp add: binary64_def)
next
  case False
  let ?t = "max (expo x - 52) (- 1074)"
  let ?m = "roundEven (x / pow2 ?t)"
  have b: "binary64 x = of_int ?m * pow2 ?t" using False by (simp add: binary64_def Let_def)
  have "\<bar>x\<bar> < pow2 (expo x + 1)" using False by (rule expo_upper)
  also have "\<dots> \<le> pow2 (?t + 53)" by (rule pow2_mono) simp
  also have "\<dots> = 2 ^ 53 * pow2 ?t"
  proof -
    have "pow2 53 = 2 ^ 53" by (simp add: pow2_def)
    then show ?thesis by (simp add: pow2_add)
  qed
  finally have "\<bar>x\<bar> / pow2 ?t < 2 ^ 53" by (simp add: field_simps)
  then have "\<bar>x / pow2 ?t\<bar> < 2 ^ 53" by simp
  then have m: "\<bar>?m\<bar> \<le> 2 ^ 53" by (rule roundEven_bound)
  show ?thesis
  proof (cases "\<bar>?m\<bar> < 2 ^ 53")
    case True
    then show ?thesis using binary64_exact [OF b True] by simp
  next
    case False
    then have "?m = 2 ^ 53 \<or> ?m = - (2 ^ 53)" using m by linarith
    moreover have p: "pow2 (?t + 53) = 2 ^ 53 * pow2 ?t"
    proof -
      have "pow2 53 = 2 ^ 53" by (simp add: pow2_def)
      then show ?thesis by (simp add: pow2_add)
    qed
    ultimately have "binary64 x = of_int 1 * pow2 (?t + 53) \<or> binary64 x = of_int (- 1) * pow2 (?t + 53)"
      using b by auto
    then show ?thesis
      using binary64_exact [of "binary64 x" 1 "?t + 53"] binary64_exact [of "binary64 x" "- 1" "?t + 53"]
      by auto
  qed
qed

lemma binary64_error:
  "x \<noteq> 0 \<Longrightarrow> \<bar>binary64 x - x\<bar> \<le> pow2 (max (expo x - 52) (- 1074)) / 2"
proof -
  assume x: "x \<noteq> 0"
  let ?q = "pow2 (max (expo x - 52) (- 1074))"
  have "\<bar>of_int (roundEven (x / ?q)) - x / ?q\<bar> \<le> 1 / 2" by (rule roundEven_near)
  then have "\<bar>of_int (roundEven (x / ?q)) - x / ?q\<bar> * ?q \<le> 1 / 2 * ?q"
    by (intro mult_right_mono) simp_all
  moreover have "\<bar>of_int (roundEven (x / ?q)) - x / ?q\<bar> * ?q
      = \<bar>of_int (roundEven (x / ?q)) * ?q - x\<bar>"
  proof -
    have "\<bar>of_int (roundEven (x / ?q)) - x / ?q\<bar> * ?q
            = \<bar>(of_int (roundEven (x / ?q)) - x / ?q) * ?q\<bar>"
      by (simp add: abs_mult)
    also have "(of_int (roundEven (x / ?q)) - x / ?q) * ?q = of_int (roundEven (x / ?q)) * ?q - x"
      by (simp add: algebra_simps)
    finally show ?thesis .
  qed
  ultimately show ?thesis using x by (simp add: binary64_def Let_def)
qed

lemma fadd_zero_left: "fadd 0 (binary64 x) = binary64 x"
  by (simp add: fadd_def)

lemma fadd_zero_right: "fadd (binary64 x) 0 = binary64 x"
  by (simp add: fadd_def)

lemma pow2_le_cancel: "pow2 a \<le> pow2 b \<Longrightarrow> a \<le> b"
proof (rule ccontr)
  assume le: "pow2 a \<le> pow2 b" and "\<not> a \<le> b"
  then have "b + 1 \<le> a" by simp
  then have "pow2 (b + 1) \<le> pow2 a" by (rule pow2_mono)
  moreover have "pow2 (b + 1) = 2 * pow2 b"
  proof -
    have "pow2 1 = 2" by (simp add: pow2_def)
    then show ?thesis by (simp add: pow2_add)
  qed
  ultimately show False using le pow2_pos [of b] by linarith
qed

lemma expo_small: "x \<noteq> 0 \<Longrightarrow> \<bar>x\<bar> \<le> 2 ^ 53 \<Longrightarrow> expo x < 1024"
proof -
  assume x: "x \<noteq> 0" and le: "\<bar>x\<bar> \<le> 2 ^ 53"
  have "pow2 53 = 2 ^ 53" by (simp add: pow2_def)
  then have "pow2 (expo x) \<le> pow2 53" using expo_lower [OF x] le by linarith
  then have "expo x \<le> 53" by (rule pow2_le_cancel)
  then show ?thesis by simp
qed

lemma toDouble_int: "\<bar>k\<bar> \<le> 2 ^ 53 \<Longrightarrow> toDouble (of_int k) = Num (of_int k)"
proof -
  assume k: "\<bar>k\<bar> \<le> 2 ^ 53"
  have b: "binary64 (of_int k) = of_int k" using k by (rule binary64_int)
  have "\<bar>real_of_int k\<bar> \<le> 2 ^ 53"
  proof -
    have "real_of_int \<bar>k\<bar> \<le> real_of_int (2 ^ 53)" using k by (simp only: of_int_le_iff)
    then show ?thesis by simp
  qed
  then have "real_of_int k \<noteq> 0 \<longrightarrow> expo (real_of_int k) < 1024" using expo_small by blast
  then show ?thesis by (auto simp: toDouble_def b Let_def)
qed

subsection \<open>Auxiliary facts\<close>

lemma js_insert_insort:
  "js_insert (\<lambda>a b. finalScore b - finalScore a) x ys = insort_key (\<lambda>r. - finalScore r) x ys"
  by (induction ys) auto

lemma js_sort_sort_key:
  "js_sort (\<lambda>a b. finalScore b - finalScore a) xs = sort_key (\<lambda>r. - finalScore r) xs"
  by (induction xs) (auto simp: js_insert_insort)

lemma sorted_desc:
  "sorted (map (\<lambda>r. - finalScore r) xs) \<Longrightarrow> sorted_wrt (\<lambda>a b. finalScore a \<ge> finalScore b) xs"
  by (induction xs) auto

lemma slotInRange_iff:
  "slotInRange h intent slot \<longleftrightarrow>
     (\<exists>t a b. getTime h slot = Some t
      \<and> getTime h (start_t (preferredTimeRange intent)) = Some a
      \<and> getTime h (end_t (preferredTimeRange intent)) = Some b \<and> a \<le> t \<and> t \<le> b)"
  by (auto simp: slotInRange_def num_ge_def num_le_def Let_def split: option.splits)

lemma finalScore_extend: "finalScore (Provider.extend p (RankedProvider.fields s m)) = s"
  by (simp add: Provider.extend_def RankedProvider.fields_def RankedProvider.defs Provider.defs)

lemma finalScore_double: "\<exists>v. finalScore (scoreProvider h p intent weights) = binary64 v"
  unfolding scoreProvider_def Let_def finalScore_extend fadd_def by auto

lemma js_insert_sign_cong:
  "(\<And>y. y \<in> set ys \<Longrightarrow> (c1 x y \<le> 0) = (c2 x y \<le> 0)) \<Longrightarrow> js_insert c1 x ys = js_insert c2 x ys"
  by (induction ys) auto

lemma set_js_insert: "set (js_insert c x ys) = insert x (set ys)"
  by (induction ys) auto

lemma set_js_sort: "set (js_sort c xs) = set xs"
  by (induction xs) (auto simp: set_js_insert)

lemma js_sort_sign_cong:
  "(\<And>x y. x \<in> set xs \<Longrightarrow> y \<in> set xs \<Longrightarrow> (c1 x y \<le> 0) = (c2 x y \<le> 0))
     \<Longrightarrow> js_sort c1 xs = js_sort c2 xs"
proof (induction xs)
  case Nil
  then show ?case by simp
next
  case (Cons x xs)
  have "js_sort c1 xs = js_sort c2 xs" using Cons by simp
  moreover have "js_insert c1 x (js_sort c2 xs) = js_insert c2 x (js_sort c2 xs)"
    using Cons.prems by (intro js_insert_sign_cong) (simp add: set_js_sort)
  ultimately show ?case by simp
qed

lemma rankProviders_sort_key:
  "rankProviders h providers intent weights
     = sort_key (\<lambda>r. - finalScore r) (map (\<lambda>p. scoreProvider h p intent weights) providers)"
proof -
  let ?scored = "map (\<lambda>p. scoreProvider h p intent weights) providers"
  have "js_sort (\<lambda>a b. fsub (finalScore b) (finalScore a)) ?scored
          = js_sort (\<lambda>a b. finalScore b - finalScore a) ?scored"
  proof (rule js_sort_sign_cong)
    fix x y assume "x \<in> set ?scored" "y \<in> set ?scored"
    then obtain u v where "finalScore x = binary64 u" "finalScore y = binary64 v"
      using finalScore_double by (metis (no_types, lifting) imageE list.set_map)
    then show "(fsub (finalScore y) (finalScore x) \<le> 0) = (finalScore y - finalScore x \<le> 0)"
      by (simp add: fsub_sign)
  qed
  then show ?thesis by (simp add: rankProviders_def js_sort_sort_key)
qed

lemma foldl_delay: "foldl (\<lambda>sum t. sum + delay t) a ts = a + sum_list (map delay ts)"
  by (induction ts arbitrary: a) auto

lemma sumDelays_sum_list: "sumDelays ts = sum_list (map delay ts)"
  by (simp add: sumDelays_def foldl_delay)

lemma find_SomeD: "find P xs = Some x \<Longrightarrow> x \<in> set xs \<and> P x"
  by (induction xs) (auto split: if_splits)

lemma js_replace_from_noZ:
  "CHR ''Z'' \<notin> set s \<Longrightarrow> js_replace_from ''Z'' [] pre s = pre @ s"
  by (induction s arbitrary: pre) auto

lemma js_replace_noZ: "CHR ''Z'' \<notin> set s \<Longrightarrow> js_replace s ''Z'' [] = s"
  by (simp add: js_replace_def js_replace_from_noZ)

lemma js_split_first:
  "(case js_split sep s of [] \<Rightarrow> [] | d # _ \<Rightarrow> d) = takeWhile (\<lambda>c. c \<noteq> sep) s"
  by (induction s) (auto split: list.splits)

lemma js_split_Cons: "\<exists>w ws. js_split sep s = w # ws"
  by (induction s) (auto split: list.splits)

lemma js_split_second:
  "(case js_split sep s of _ # t # _ \<Rightarrow> t | _ \<Rightarrow> d)
     = (if sep \<in> set s then takeWhile (\<lambda>c. c \<noteq> sep) (drop 1 (dropWhile (\<lambda>c. c \<noteq> sep) s)) else d)"
proof (induction s)
  case Nil
  then show ?case by simp
next
  case (Cons c cs)
  obtain w ws where w: "js_split sep cs = w # ws" using js_split_Cons by blast
  show ?case
  proof (cases "c = sep")
    case True
    then show ?thesis using w js_split_first [of sep cs] by simp
  next
    case False
    then show ?thesis using Cons w by (auto split: list.splits)
  qed
qed

lemma alternativeFor_explicit:
  "alternativeFor s0 =
     (let a = js_replace s0 ''Z'' [];
          clean = stripZone a;
          timePart = (if CHR ''T'' \<in> set clean
                      then takeWhile (\<lambda>c. c \<noteq> CHR ''T'') (drop 1 (dropWhile (\<lambda>c. c \<noteq> CHR ''T'') clean))
                      else ''00:00:00'')
      in if (\<exists>n. parseInt (takeWhile (\<lambda>c. c \<noteq> CHR '':'') timePart) = Some n \<and> (n < 8 \<or> 18 < n))
         then takeWhile (\<lambda>c. c \<noteq> CHR ''T'') clean @ ''T10:00:00'' else a)"
proof -
  have c: "(num_lt x (Some 8) \<or> num_gt x (Some 18)) = (\<exists>n. x = Some n \<and> (n < 8 \<or> 18 < n))" for x
    by (cases x) (auto simp: num_lt_def num_gt_def)
  show ?thesis
    unfolding alternativeFor_def Let_def js_split_first js_split_second c ..
qed

lemma demo_unknown: "getProvider demoHost ''nobody'' = None"
  by code_simp

subsection \<open>Booked and alternative slots\<close>

text \<open>
  Claim C1 says that the booked slot of a successful call is one of the provider's
  \<open>availableSlots\<close>, and that the alternative slots of a failed call are among them too.
  Neither holds. The booked slot is the matched slot without its first \<open>Z\<close>: the third
  provider of the example directory offers \<open>2026-02-10T15:00:00Z\<close>, and a successful call
  books \<open>2026-02-10T15:00:00\<close>. The alternative is moved to ten o'clock when the first
  slot lies outside business hours: the second provider offers 23:00 and 10:30, and the
  failed call proposes 10:00.
\<close>

theorem slots_not_members:
  "success (simulateProviderCall demoHost 0 ''prov_003'' ''2026-02-10T10:00:00'' None)
   \<and> getProvider demoHost ''prov_003'' = Some (demoDirectory ! 2)
   \<and> bookedSlot (simulateProviderCall demoHost 0 ''prov_003'' ''2026-02-10T10:00:00'' None)
        = Some ''2026-02-10T15:00:00''
   \<and> ''2026-02-10T15:00:00'' \<notin> set (availableSlots (demoDirectory ! 2))
   \<and> \<not> success (simulateProviderCall demoHost 0 ''prov_002'' ''2026-02-10T23:00:00'' None)
   \<and> getProvider demoHost ''prov_002'' = Some (demoDirectory ! 1)
   \<and> alternativeSlots (simulateProviderCall demoHost 0 ''prov_002'' ''2026-02-10T23:00:00'' None)
        = Some [''2026-02-10T10:00:00'']
   \<and> ''2026-02-10T10:00:00'' \<notin> set (availableSlots (demoDirectory ! 1))"
  by code_simp

text \<open>
  Claim C1 as the code has it. The booked slot of a successful call is a slot \<open>s\<close> of the
  provider's \<open>availableSlots\<close> with its first \<open>Z\<close> removed, where the times of \<open>s\<close> and of the
  requested slot are valid and at most 60 minutes (3600000 ms) apart; so it is \<open>s\<close> itself
  when \<open>s\<close> has no \<open>Z\<close>. The alternative slots of a failed call, when there are any, are
  one slot, computed from the provider's first slot \<open>s0\<close>: let \<open>a\<close> be \<open>s0\<close> without its first
  \<open>Z\<close>, \<open>clean\<close> be \<open>a\<close> without a zone suffix, and the hour be the integer that \<open>parseInt\<close>
  reads from the text between the first \<open>T\<close> of \<open>clean\<close> and the next colon (from \<open>00\<close> when
  \<open>clean\<close> has no \<open>T\<close>); when the hour is below 8 or above 18 the slot is the text of
  \<open>clean\<close> before its first \<open>T\<close> followed by \<open>T10:00:00\<close>, and otherwise (also when there is
  no hour to read) it is \<open>a\<close>.
\<close>

theorem slots_from_availableSlots:
  "(success (simulateProviderCall h rnd pid slot desc) \<longrightarrow>
      (\<exists>provider s ts tr. getProvider h pid = Some provider \<and> s \<in> set (availableSlots provider)
         \<and> getTime h s = Some ts \<and> getTime h slot = Some tr \<and> \<bar>ts - tr\<bar> \<le> 60 * 60 * 1000
         \<and> bookedSlot (simulateProviderCall h rnd pid slot desc) = Some (js_replace s ''Z'' [])
         \<and> (CHR ''Z'' \<notin> set s \<longrightarrow> bookedSlot (simulateProviderCall h rnd pid slot desc) = Some s)))
   \<and> (\<not> success (simulateProviderCall h rnd pid slot desc) \<longrightarrow>
      (\<forall>alts. alternativeSlots (simulateProviderCall h rnd pid slot desc) = Some alts \<longrightarrow>
         (\<exists>provider s0 rest a clean timePart. getProvider h pid = Some provider
            \<and> availableSlots provider = s0 # rest
            \<and> a = js_replace s0 ''Z'' [] \<and> clean = stripZone a
            \<and> timePart = (if CHR ''T'' \<in> set clean
                          then takeWhile (\<lambda>c. c \<noteq> CHR ''T'')
                                 (drop 1 (dropWhile (\<lambda>c. c \<noteq> CHR ''T'') clean))
                          else ''00:00:00'')
            \<and> alts = [if (\<exists>n. parseInt (takeWhile (\<lambda>c. c \<noteq> CHR '':'') timePart) = Some n
                              \<and> (n < 8 \<or> 18 < n))
                      then takeWhile (\<lambda>c. c \<noteq> CHR ''T'') clean @ ''T10:00:00'' else a])))"
proof (cases "getProvider h pid")
  case None
  then show ?thesis by (simp add: simulateProviderCall_def Let_def)
next
  case (Some provider)
  have flex: "withinFlex x y \<longleftrightarrow> (\<exists>ts tr. x = Some ts \<and> y = Some tr \<and> \<bar>ts - tr\<bar> \<le> 60 * 60 * 1000)"
    for x y
    by (auto simp: withinFlex_def split: option.splits)
  have booked: "success (simulateProviderCall h rnd pid slot desc) \<longrightarrow>
      (\<exists>s. s \<in> set (availableSlots provider)
         \<and> withinFlex (getTime h s) (getTime h slot)
         \<and> bookedSlot (simulateProviderCall h rnd pid slot desc) = Some (js_replace s ''Z'' [])
         \<and> (CHR ''Z'' \<notin> set s \<longrightarrow> bookedSlot (simulateProviderCall h rnd pid slot desc) = Some s))"
    using Some
    by (auto simp: simulateProviderCall_def Let_def js_replace_noZ
             split: option.splits list.splits if_splits dest!: find_SomeD)
  have alt: "\<not> success (simulateProviderCall h rnd pid slot desc) \<longrightarrow>
      (\<forall>alts. alternativeSlots (simulateProviderCall h rnd pid slot desc) = Some alts \<longrightarrow>
         (\<exists>s0 rest. availableSlots provider = s0 # rest \<and> alts = [alternativeFor s0]))"
    using Some
    by (auto simp: simulateProviderCall_def Let_def
             split: option.splits list.splits if_splits)
  have b: "success (simulateProviderCall h rnd pid slot desc) \<longrightarrow>
      (\<exists>provider s ts tr. getProvider h pid = Some provider \<and> s \<in> set (availableSlots provider)
         \<and> getTime h s = Some ts \<and> getTime h slot = Some tr \<and> \<bar>ts - tr\<bar> \<le> 60 * 60 * 1000
         \<and> bookedSlot (simulateProviderCall h rnd pid slot desc) = Some (js_replace s ''Z'' [])
         \<and> (CHR ''Z'' \<notin> set s \<longrightarrow> bookedSlot (simulateProviderCall h rnd pid slot desc) = Some s))"
    using booked Some unfolding flex by blast
  have a: "\<not> success (simulateProviderCall h rnd pid slot desc) \<longrightarrow>
      (\<forall>alts. alternativeSlots (simulateProviderCall h rnd pid slot desc) = Some alts \<longrightarrow>
         (\<exists>provider s0 rest a clean timePart. getProvider h pid = Some provider
            \<and> availableSlots provider = s0 # rest
            \<and> a = js_replace s0 ''Z'' [] \<and> clean = stripZone a
            \<and> timePart = (if CHR ''T'' \<in> set clean
                          then takeWhile (\<lambda>c. c \<noteq> CHR ''T'')
                                 (drop 1 (dropWhile (\<lambda>c. c \<noteq> CHR ''T'') clean))
                          else ''00:00:00'')
            \<and> alts = [if (\<exists>n. parseInt (takeWhile (\<lambda>c. c \<noteq> CHR '':'') timePart) = Some n
                              \<and> (n < 8 \<or> 18 < n))
                      then takeWhile (\<lambda>c. c \<noteq> CHR ''T'') clean @ ''T10:00:00'' else a]))"
  proof (intro impI allI)
    fix alts
    assume "\<not> success (simulateProviderCall h rnd pid slot desc)"
      and "alternativeSlots (simulateProviderCall h rnd pid slot desc) = Some alts"
    then obtain s0 rest where s0: "availableSlots provider = s0 # rest" "alts = [alternativeFor s0]"
      using alt by blast
    show "\<exists>provider s0 rest a clean timePart. getProvider h pid = Some provider
            \<and> availableSlots provider = s0 # rest
            \<and> a = js_replace s0 ''Z'' [] \<and> clean = stripZone a
            \<and> timePart = (if CHR ''T'' \<in> set clean
                          then takeWhile (\<lambda>c. c \<noteq> CHR ''T'')
                                 (drop 1 (dropWhile (\<lambda>c. c \<noteq> CHR ''T'') clean))
                          else ''00:00:00'')
            \<and> alts = [if (\<exists>n. parseInt (takeWhile (\<lambda>c. c \<noteq> CHR '':'') timePart) = Some n
                              \<and> (n < 8 \<or> 18 < n))
                      then takeWhile (\<lambda>c. c \<noteq> CHR ''T'') clean @ ''T10:00:00'' else a]"
      using Some s0 alternativeFor_explicit [of s0] unfolding Let_def by blast
  qed
  show ?thesis using a b by blast
qed

theorem slots_from_availableSlots_witness:
  "success (simulateProviderCall demoHost 0 ''prov_004'' ''2026-02-10T10:30:00'' None)
   \<and> bookedSlot (simulateProviderCall demoHost 0 ''prov_004'' ''2026-02-10T10:30:00'' None)
        = Some ''2026-02-10T10:00:00''
   \<and> (\<exists>provider s ts tr. getProvider demoHost ''prov_004'' = Some provider
         \<and> s \<in> set (availableSlots provider)
         \<and> getTime demoHost s = Some ts \<and> getTime demoHost ''2026-02-10T10:30:00'' = Some tr
         \<and> \<bar>ts - tr\<bar> \<le> 60 * 60 * 1000
         \<and> bookedSlot (simulateProviderCall demoHost 0 ''prov_004'' ''2026-02-10T10:30:00'' None)
              = Some (js_replace s ''Z'' []))
   \<and> \<not> success (simulateProviderCall demoHost 0 ''prov_002'' ''2026-02-10T23:00:00'' None)
   \<and> alternativeSlots (simulateProviderCall demoHost 0 ''prov_002'' ''2026-02-10T23:00:00'' None)
        = Some [''2026-02-10T10:00:00'']
   \<and> (\<exists>provider s0 rest a clean timePart. getProvider demoHost ''prov_002'' = Some provider
         \<and> availableSlots provider = s0 # rest
         \<and> a = js_replace s0 ''Z'' [] \<and> clean = stripZone a
         \<and> timePart = (if CHR ''T'' \<in> set clean
                       then takeWhile (\<lambda>c. c \<noteq> CHR ''T'')
                              (drop 1 (dropWhile (\<lambda>c. c \<noteq> CHR ''T'') clean))
                       else ''00:00:00'')
         \<and> [''2026-02-10T10:00:00'']
             = [if (\<exists>n. parseInt (takeWhile (\<lambda>c. c \<noteq> CHR '':'') timePart) = Some n
                        \<and> (n < 8 \<or> 18 < n))
                then takeWhile (\<lambda>c. c \<noteq> CHR ''T'') clean @ ''T10:00:00'' else a])
   \<and> availableSlots (demoDirectory ! 1) = [''2026-02-10T23:00:00'', ''2026-02-10T10:30:00'']
   \<and> parseInt ''23'' = Some 23"
proof -
  have a: "success (simulateProviderCall demoHost 0 ''prov_004'' ''2026-02-10T10:30:00'' None)"
    by code_simp
  have b: "bookedSlot (simulateProviderCall demoHost 0 ''prov_004'' ''2026-02-10T10:30:00'' None)
        = Some ''2026-02-10T10:00:00''"
    by code_simp
  have c: "\<not> success (simulateProviderCall demoHost 0 ''prov_002'' ''2026-02-10T23:00:00'' None)"
    by code_simp
  have d: "alternativeSlots (simulateProviderCall demoHost 0 ''prov_002'' ''2026-02-10T23:00:00'' None)
        = Some [''2026-02-10T10:00:00'']"
    by code_simp
  have e: "availableSlots (demoDirectory ! 1) = [''2026-02-10T23:00:00'', ''2026-02-10T10:30:00'']"
    "parseInt ''23'' = Some 23"
    by code_simp+
  have f: "\<exists>provider s ts tr. getProvider demoHost ''prov_004'' = Some provider
         \<and> s \<in> set (availableSlots provider)
         \<and> getTime demoHost s = Some ts \<and> getTime demoHost ''2026-02-10T10:30:00'' = Some tr
         \<and> \<bar>ts - tr\<bar> \<le> 60 * 60 * 1000
         \<and> bookedSlot (simulateProviderCall demoHost 0 ''prov_004'' ''2026-02-10T10:30:00'' None)
              = Some (js_replace s ''Z'' [])"
    using a slots_from_availableSlots [of demoHost 0 "''prov_004''" "''2026-02-10T10:30:00''" None]
    by blast
  have g: "\<exists>provider s0 rest a clean timePart. getProvider demoHost ''prov_002'' = Some provider
         \<and> availableSlots provider = s0 # rest
         \<and> a = js_replace s0 ''Z'' [] \<and> clean = stripZone a
         \<and> timePart = (if CHR ''T'' \<in> set clean
                       then takeWhile (\<lambda>c. c \<noteq> CHR ''T'')
                              (drop 1 (dropWhile (\<lambda>c. c \<noteq> CHR ''T'') clean))
                       else ''00:00:00'')
         \<and> [''2026-02-10T10:00:00'']
             = [if (\<exists>n. parseInt (takeWhile (\<lambda>c. c \<noteq> CHR '':'') timePart) = Some n
                        \<and> (n < 8 \<or> 18 < n))
                then takeWhile (\<lambda>c. c \<noteq> CHR ''T'') clean @ ''T10:00:00'' else a]"
    using c d slots_from_availableSlots [of demoHost 0 "''prov_002''" "''2026-02-10T23:00:00''" None]
    by blast
  show ?thesis
    by (intro conjI a b c d e f g)
qed

subsection \<open>The score of a provider\<close>

text \<open>
  Claim C2: the \<open>finalScore\<close> that \<open>scoreProvider\<close> computes is
  \<open>rating * ratingMultiplier + max(0, maxDistanceScore - distanceMiles * distanceDecayPerMile)\<close>
  plus \<open>slotMatchBonus\<close> when some slot of \<open>availableSlots\<close> has its time between the times
  of the start and the end of the preferred range, and plus 0 otherwise, in the arithmetic
  of the code: every product, difference and sum is rounded to the nearest double, in the
  order written. When none of them needs rounding (the four exact intermediate values and
  the exact total are doubles) the score is the exact value of the expression. In
  particular, with the default weights a provider of rating 5 at distance 0 that has
  such a slot scores exactly 100.
\<close>

theorem scoreProvider_formula:
  "finalScore (scoreProvider h provider intent weights) =
     fadd (fadd (fmul (rating provider) (ratingMultiplier weights))
                (max 0 (fsub (maxDistanceScore weights)
                          (fmul (distanceMiles provider) (distanceDecayPerMile weights)))))
          (if (\<exists>slot \<in> set (availableSlots provider). \<exists>t a b. getTime h slot = Some t
                 \<and> getTime h (start_t (preferredTimeRange intent)) = Some a
                 \<and> getTime h (end_t (preferredTimeRange intent)) = Some b \<and> a \<le> t \<and> t \<le> b)
           then slotMatchBonus weights else 0)
   \<and> (binary64 (rating provider * ratingMultiplier weights) = rating provider * ratingMultiplier weights
        \<and> binary64 (distanceMiles provider * distanceDecayPerMile weights) = distanceMiles provider * distanceDecayPerMile weights
        \<and> binary64 (maxDistanceScore weights - distanceMiles provider * distanceDecayPerMile weights)
            = maxDistanceScore weights - distanceMiles provider * distanceDecayPerMile weights
        \<and> binary64 (rating provider * ratingMultiplier weights + max 0 (maxDistanceScore weights - distanceMiles provider * distanceDecayPerMile weights))
            = rating provider * ratingMultiplier weights + max 0 (maxDistanceScore weights - distanceMiles provider * distanceDecayPerMile weights)
        \<and> binary64 (rating provider * ratingMultiplier weights + max 0 (maxDistanceScore weights - distanceMiles provider * distanceDecayPerMile weights)
              + (if (\<exists>slot \<in> set (availableSlots provider). \<exists>t a b. getTime h slot = Some t
                 \<and> getTime h (start_t (preferredTimeRange intent)) = Some a
                 \<and> getTime h (end_t (preferredTimeRange intent)) = Some b \<and> a \<le> t \<and> t \<le> b)
                 then slotMatchBonus weights else 0))
            = rating provider * ratingMultiplier weights + max 0 (maxDistanceScore weights - distanceMiles provider * distanceDecayPerMile weights)
              + (if (\<exists>slot \<in> set (availableSlots provider). \<exists>t a b. getTime h slot = Some t
                 \<and> getTime h (start_t (preferredTimeRange intent)) = Some a
                 \<and> getTime h (end_t (preferredTimeRange intent)) = Some b \<and> a \<le> t \<and> t \<le> b)
                 then slotMatchBonus weights else 0)
       \<longrightarrow> finalScore (scoreProvider h provider intent weights) =
             rating provider * ratingMultiplier weights + max 0 (maxDistanceScore weights - distanceMiles provider * distanceDecayPerMile weights)
             + (if (\<exists>slot \<in> set (availableSlots provider). \<exists>t a b. getTime h slot = Some t
                 \<and> getTime h (start_t (preferredTimeRange intent)) = Some a
                 \<and> getTime h (end_t (preferredTimeRange intent)) = Some b \<and> a \<le> t \<and> t \<le> b)
                 then slotMatchBonus weights else 0))
   \<and> (rating provider = 5 \<and> distanceMiles provider = 0
        \<and> (\<exists>slot \<in> set (availableSlots provider). \<exists>t a b. getTime h slot = Some t
                 \<and> getTime h (start_t (preferredTimeRange intent)) = Some a
                 \<and> getTime h (end_t (preferredTimeRange intent)) = Some b \<and> a \<le> t \<and> t \<le> b)
       \<longrightarrow> finalScore (scoreProvider h provider intent DEFAULT_WEIGHTS) = 100)"
proof -
  let ?M = "\<exists>slot \<in> set (availableSlots provider). \<exists>t a b. getTime h slot = Some t
             \<and> getTime h (start_t (preferredTimeRange intent)) = Some a
             \<and> getTime h (end_t (preferredTimeRange intent)) = Some b \<and> a \<le> t \<and> t \<le> b"
  let ?A = "rating provider * ratingMultiplier weights"
  let ?P = "distanceMiles provider * distanceDecayPerMile weights"
  let ?D = "max 0 (maxDistanceScore weights - ?P)"
  let ?B = "if ?M then slotMatchBonus weights else 0"
  have ne: "(filter (slotInRange h intent) (availableSlots provider) \<noteq> []) = ?M"
    by (auto simp: filter_empty_conv slotInRange_iff)
  have formula: "finalScore (scoreProvider h provider intent w) =
     fadd (fadd (fmul (rating provider) (ratingMultiplier w))
                (max 0 (fsub (maxDistanceScore w)
                          (fmul (distanceMiles provider) (distanceDecayPerMile w)))))
          (if ?M then slotMatchBonus w else 0)" for w
  proof -
    let ?s1 = "fmul (rating provider) (ratingMultiplier w)"
    let ?d = "max 0 (fsub (maxDistanceScore w) (fmul (distanceMiles provider) (distanceDecayPerMile w)))"
    have a: "fadd 0 ?s1 = ?s1" by (simp add: fadd_def fmul_def)
    have b: "fadd (fadd ?s1 ?d) 0 = fadd ?s1 ?d" by (simp add: fadd_def)
    show ?thesis
      using ne unfolding scoreProvider_def Let_def finalScore_extend a
      by (simp only: length_greater_0_conv b if_distrib [of "fadd (fadd ?s1 ?d)"] split: if_splits)
  qed
  have exact: "finalScore (scoreProvider h provider intent weights) = ?A + ?D + ?B"
    if r: "binary64 ?A = ?A" "binary64 ?P = ?P"
      "binary64 (maxDistanceScore weights - ?P) = maxDistanceScore weights - ?P"
      "binary64 (?A + ?D) = ?A + ?D" "binary64 (?A + ?D + ?B) = ?A + ?D + ?B"
    unfolding formula fadd_def fsub_def fmul_def r(1) r(2) r(3) r(4) by (rule r(5))
  have i50: "binary64 50 = 50" using binary64_int [of 50] by simp
  have i30: "binary64 30 = 30" using binary64_int [of 30] by simp
  have i80: "binary64 80 = 80" using binary64_int [of 80] by simp
  have i100: "binary64 100 = 100" using binary64_int [of 100] by simp
  have i0: "binary64 0 = 0" by (simp add: binary64_def)
  have hundred: "finalScore (scoreProvider h provider intent DEFAULT_WEIGHTS) = 100"
    if "rating provider = 5 \<and> distanceMiles provider = 0 \<and> ?M"
    using that
    by (simp add: formula DEFAULT_WEIGHTS_def fadd_def fsub_def fmul_def i50 i30 i80 i100 i0)
  show ?thesis
    using formula [of weights] exact hundred by blast
qed

text \<open>
  The example provider of rating 5 at distance 0 scores 100, without any rounding. With the
  rating 4.02 (the double nearest to it), no slot and the same distance, the product
  \<open>rating * 10\<close> is rounded to 40.199999999999996 and the sum with 30 once more: the score
  is the double \<open>4939885841272012 / 2^46\<close>, which JavaScript prints as 70.19999999999999.
\<close>

theorem scoreProvider_formula_witness:
  "rating (demoDirectory ! 0) = 5 \<and> distanceMiles (demoDirectory ! 0) = 0
   \<and> ''2026-02-10T10:00:00'' \<in> set (availableSlots (demoDirectory ! 0))
   \<and> getTime demoHost ''2026-02-10T10:00:00'' = Some 1770735600000
   \<and> getTime demoHost (start_t (preferredTimeRange demoIntent)) = Some 1770732000000
   \<and> getTime demoHost (end_t (preferredTimeRange demoIntent)) = Some 1770742800000
   \<and> binary64 (5 * 10) = 5 * 10 \<and> binary64 (0 * 5) = 0 * 5 \<and> binary64 (30 - 0 * 5) = 30 - 0 * 5
   \<and> binary64 (5 * 10 + max 0 (30 - 0 * 5)) = 5 * 10 + max 0 (30 - 0 * 5)
   \<and> binary64 (5 * 10 + max 0 (30 - 0 * 5) + 20) = 5 * 10 + max 0 (30 - 0 * 5) + 20
   \<and> finalScore (scoreProvider demoHost (demoDirectory ! 0) demoIntent DEFAULT_WEIGHTS)
       = 5 * 10 + max 0 (30 - 0 * 5) + 20
   \<and> finalScore (scoreProvider demoHost (demoDirectory ! 0) demoIntent DEFAULT_WEIGHTS) = 100
   \<and> finalScore (scoreProvider demoHost
         ((demoDirectory ! 0)\<lparr>rating := binary64 4.02, availableSlots := []\<rparr>) demoIntent DEFAULT_WEIGHTS)
       = fadd (fadd (fmul (binary64 4.02) 10) (max 0 (fsub 30 (fmul 0 5)))) 0
   \<and> fmul (binary64 4.02) 10 = 5657647031884185 / 2 ^ 47
   \<and> fadd (fadd (fmul (binary64 4.02) 10) (max 0 (fsub 30 (fmul 0 5)))) 0
       = 4939885841272012 / 2 ^ 46"
proof -
  let ?p = "demoDirectory ! 0"
  let ?q = "(demoDirectory ! 0)\<lparr>rating := binary64 4.02, availableSlots := []\<rparr>"
  have r: "rating ?p = 5" "distanceMiles ?p = 0"
    by code_simp+
  have w: "ratingMultiplier DEFAULT_WEIGHTS = 10" "maxDistanceScore DEFAULT_WEIGHTS = 30"
    "distanceDecayPerMile DEFAULT_WEIGHTS = 5" "slotMatchBonus DEFAULT_WEIGHTS = 20"
    by (simp_all add: DEFAULT_WEIGHTS_def)
  have m: "''2026-02-10T10:00:00'' \<in> set (availableSlots ?p)"
    by code_simp
  have t: "getTime demoHost ''2026-02-10T10:00:00'' = Some 1770735600000"
    "getTime demoHost (start_t (preferredTimeRange demoIntent)) = Some 1770732000000"
    "getTime demoHost (end_t (preferredTimeRange demoIntent)) = Some 1770742800000"
    by code_simp+
  have ex: "\<exists>slot \<in> set (availableSlots ?p). \<exists>t a b.
      getTime demoHost slot = Some t
      \<and> getTime demoHost (start_t (preferredTimeRange demoIntent)) = Some a
      \<and> getTime demoHost (end_t (preferredTimeRange demoIntent)) = Some b \<and> a \<le> t \<and> t \<le> b"
    using m t by (intro bexI [of _ "''2026-02-10T10:00:00''"]) simp_all
  have b: "binary64 (5 * 10) = 5 * 10" "binary64 (0 * 5) = 0 * 5" "binary64 (30 - 0 * 5) = 30 - 0 * 5"
    "binary64 (5 * 10 + max 0 (30 - 0 * 5)) = 5 * 10 + max 0 (30 - 0 * 5)"
    "binary64 (5 * 10 + max 0 (30 - 0 * 5) + 20) = 5 * 10 + max 0 (30 - 0 * 5) + 20"
    by code_simp+
  note sf = scoreProvider_formula [of demoHost ?p demoIntent DEFAULT_WEIGHTS]
  have b': "binary64 (rating ?p * ratingMultiplier DEFAULT_WEIGHTS)
          = rating ?p * ratingMultiplier DEFAULT_WEIGHTS
      \<and> binary64 (distanceMiles ?p * distanceDecayPerMile DEFAULT_WEIGHTS)
          = distanceMiles ?p * distanceDecayPerMile DEFAULT_WEIGHTS
      \<and> binary64 (maxDistanceScore DEFAULT_WEIGHTS - distanceMiles ?p * distanceDecayPerMile DEFAULT_WEIGHTS)
          = maxDistanceScore DEFAULT_WEIGHTS - distanceMiles ?p * distanceDecayPerMile DEFAULT_WEIGHTS
      \<and> binary64 (rating ?p * ratingMultiplier DEFAULT_WEIGHTS
            + max 0 (maxDistanceScore DEFAULT_WEIGHTS - distanceMiles ?p * distanceDecayPerMile DEFAULT_WEIGHTS))
          = rating ?p * ratingMultiplier DEFAULT_WEIGHTS
            + max 0 (maxDistanceScore DEFAULT_WEIGHTS - distanceMiles ?p * distanceDecayPerMile DEFAULT_WEIGHTS)
      \<and> binary64 (rating ?p * ratingMultiplier DEFAULT_WEIGHTS
            + max 0 (maxDistanceScore DEFAULT_WEIGHTS - distanceMiles ?p * distanceDecayPerMile DEFAULT_WEIGHTS)
            + (if (\<exists>slot \<in> set (availableSlots ?p). \<exists>t a b. getTime demoHost slot = Some t
                     \<and> getTime demoHost (start_t (preferredTimeRange demoIntent)) = Some a
                     \<and> getTime demoHost (end_t (preferredTimeRange demoIntent)) = Some b
                     \<and> a \<le> t \<and> t \<le> b)
               then slotMatchBonus DEFAULT_WEIGHTS else 0))
          = rating ?p * ratingMultiplier DEFAULT_WEIGHTS
            + max 0 (maxDistanceScore DEFAULT_WEIGHTS - distanceMiles ?p * distanceDecayPerMile DEFAULT_WEIGHTS)
            + (if (\<exists>slot \<in> set (availableSlots ?p). \<exists>t a b. getTime demoHost slot = Some t
                     \<and> getTime demoHost (start_t (preferredTimeRange demoIntent)) = Some a
                     \<and> getTime demoHost (end_t (preferredTimeRange demoIntent)) = Some b
                     \<and> a \<le> t \<and> t \<le> b)
               then slotMatchBonus DEFAULT_WEIGHTS else 0)"
    unfolding r w using ex b by (simp only: if_True simp_thms)
  have e0: "finalScore (scoreProvider demoHost ?p demoIntent DEFAULT_WEIGHTS)
      = rating ?p * ratingMultiplier DEFAULT_WEIGHTS
        + max 0 (maxDistanceScore DEFAULT_WEIGHTS - distanceMiles ?p * distanceDecayPerMile DEFAULT_WEIGHTS)
        + (if (\<exists>slot \<in> set (availableSlots ?p). \<exists>t a b. getTime demoHost slot = Some t
                 \<and> getTime demoHost (start_t (preferredTimeRange demoIntent)) = Some a
                 \<and> getTime demoHost (end_t (preferredTimeRange demoIntent)) = Some b
                 \<and> a \<le> t \<and> t \<le> b)
           then slotMatchBonus DEFAULT_WEIGHTS else 0)"
    using sf b' by blast
  have e: "finalScore (scoreProvider demoHost ?p demoIntent DEFAULT_WEIGHTS)
             = 5 * 10 + max 0 (30 - 0 * 5) + 20"
    using e0 ex unfolding r w by (simp only: if_True)
  have h: "finalScore (scoreProvider demoHost ?p demoIntent DEFAULT_WEIGHTS) = 100"
    using sf r ex by blast
  have q: "rating ?q = binary64 4.02" "distanceMiles ?q = 0" "availableSlots ?q = []"
    using r by simp_all
  have f: "finalScore (scoreProvider demoHost ?q demoIntent DEFAULT_WEIGHTS)
       = fadd (fadd (fmul (binary64 4.02) 10) (max 0 (fsub 30 (fmul 0 5)))) 0"
    using scoreProvider_formula [of demoHost ?q demoIntent DEFAULT_WEIGHTS]
    unfolding q w by simp
  have v: "fmul (binary64 4.02) 10 = 5657647031884185 / 2 ^ 47"
    "fadd (fadd (fmul (binary64 4.02) 10) (max 0 (fsub 30 (fmul 0 5)))) 0 = 4939885841272012 / 2 ^ 46"
    by code_simp+
  show ?thesis
    by (intro conjI r m t b e h f v)
qed

subsection \<open>The ranking\<close>

text \<open>
  Claim C3: \<open>rankProviders\<close> returns the scored providers in descending order of
  \<open>finalScore\<close> (the comparator's rounded difference of two scores has the sign of their
  exact difference); the sort is stable, that is, for every score the providers with that
  score appear in the output in their input order; the output is a rearrangement of the
  scored input, and it is a function of the inputs alone; the empty list of providers
  yields the empty list.
\<close>

theorem rankProviders_sorted_stable:
  "sorted_wrt (\<lambda>a b. finalScore a \<ge> finalScore b) (rankProviders h providers intent weights)
   \<and> (\<forall>v. filter (\<lambda>r. finalScore r = v) (rankProviders h providers intent weights)
          = filter (\<lambda>r. finalScore r = v) (map (\<lambda>p. scoreProvider h p intent weights) providers))
   \<and> mset (rankProviders h providers intent weights)
        = mset (map (\<lambda>p. scoreProvider h p intent weights) providers)
   \<and> rankProviders h [] intent weights = []"
proof -
  let ?scored = "map (\<lambda>p. scoreProvider h p intent weights) providers"
  have eq: "rankProviders h providers intent weights = sort_key (\<lambda>r. - finalScore r) ?scored"
    by (rule rankProviders_sort_key)
  have s: "sorted_wrt (\<lambda>a b. finalScore a \<ge> finalScore b) (sort_key (\<lambda>r. - finalScore r) ?scored)"
    by (rule sorted_desc) simp
  have st: "filter (\<lambda>r. finalScore r = v) (sort_key (\<lambda>r. - finalScore r) ?scored)
          = filter (\<lambda>r. finalScore r = v) ?scored" for v
    using sort_key_stable [of "\<lambda>r. - finalScore r" "- v" ?scored] by simp
  show ?thesis
    using s st by (simp add: eq) (simp add: rankProviders_def)
qed

subsection \<open>After hours\<close>



subsection \<open>Wait time\<close>

text \<open>
  Claim C7 says that \<open>waitTime\<close> is the sum of the delays of the transcript lines in every
  call, the unknown provider included. For an unknown provider the wait time is 500 and
  the only transcript line has delay 0.
\<close>

theorem waitTime_unknown_not_sum:
  "waitTime (simulateProviderCall demoHost 0 ''nobody'' ''2026-02-10T10:00:00'' None)
     \<noteq> sum_list (map delay (transcript
           (simulateProviderCall demoHost 0 ''nobody'' ''2026-02-10T10:00:00'' None)))"
  by (simp add: simulateProviderCall_def demo_unknown)

text \<open>
  Claim C7 as the code has it: for a provider id that \<open>getProvider\<close> knows, \<open>waitTime\<close> is
  the sum of the delays of the transcript lines of the same result; for an unknown id
  \<open>waitTime\<close> is 500 and the transcript has one line, of delay 0.
\<close>

theorem waitTime_sum_of_delays:
  "(getProvider h pid \<noteq> None \<longrightarrow>
      waitTime (simulateProviderCall h rnd pid slot desc)
        = sum_list (map delay (transcript (simulateProviderCall h rnd pid slot desc))))
   \<and> (getProvider h pid = None \<longrightarrow>
      waitTime (simulateProviderCall h rnd pid slot desc) = 500
      \<and> map delay (transcript (simulateProviderCall h rnd pid slot desc)) = [0])"
  by (auto simp: simulateProviderCall_def Let_def sumDelays_sum_list
           split: option.splits list.splits)

theorem waitTime_sum_of_delays_witness:
  "getProvider demoHost ''prov_004'' \<noteq> None
   \<and> waitTime (simulateProviderCall demoHost 0 ''prov_004'' ''2026-02-10T10:30:00'' None) = 4800
   \<and> sum_list (map delay (transcript
        (simulateProviderCall demoHost 0 ''prov_004'' ''2026-02-10T10:30:00'' None))) = 4800
   \<and> getProvider demoHost ''nobody'' = None
   \<and> waitTime (simulateProviderCall demoHost 0 ''nobody'' ''2026-02-10T10:30:00'' None) = 500"
proof -
  have k: "getProvider demoHost ''prov_004'' \<noteq> None"
    by code_simp
  have w: "waitTime (simulateProviderCall demoHost 0 ''prov_004'' ''2026-02-10T10:30:00'' None) = 4800"
    by code_simp
  show ?thesis
    using k w demo_unknown
      waitTime_sum_of_delays [of demoHost "''prov_004''" 0 "''2026-02-10T10:30:00''" None]
      waitTime_sum_of_delays [of demoHost "''nobody''" 0 "''2026-02-10T10:30:00''" None]
    by simp
qed

subsection \<open>Unknown provider\<close>

text \<open>
  Claim C8 says that the message for an unknown provider id is \<open>Provider not found\<close>. The
  message of \<open>simulateProviderCall\<close> is longer.
\<close>

theorem unknown_provider_message_differs:
  "message (simulateProviderCall demoHost 0 ''nobody'' ''2026-02-10T10:00:00'' None)
     \<noteq> ''Provider not found''"
  by (simp add: simulateProviderCall_def demo_unknown)

text \<open>
  Claim C8 as the code has it: for an id that \<open>getProvider\<close> does not know,
  \<open>simulateProviderCall\<close> returns a result (it is a total function: nothing is thrown) with
  \<open>success = false\<close>, the message \<open>Provider not found in directory\<close> and a transcript of
  exactly one line.
\<close>

theorem unknown_provider_result:
  "getProvider h pid = None \<Longrightarrow>
     success (simulateProviderCall h rnd pid slot desc) = False
     \<and> message (simulateProviderCall h rnd pid slot desc) = ''Provider not found in directory''
     \<and> length (transcript (simulateProviderCall h rnd pid slot desc)) = 1"
  by (simp add: simulateProviderCall_def Let_def)

theorem unknown_provider_result_witness:
  "getProvider demoHost ''nobody'' = None
   \<and> success (simulateProviderCall demoHost 0 ''nobody'' ''2026-02-10T10:00:00'' None) = False
   \<and> message (simulateProviderCall demoHost 0 ''nobody'' ''2026-02-10T10:00:00'' None)
        = ''Provider not found in directory''
   \<and> length (transcript (simulateProviderCall demoHost 0 ''nobody'' ''2026-02-10T10:00:00'' None)) = 1"
  using demo_unknown
    unknown_provider_result [of demoHost "''nobody''" 0 "''2026-02-10T10:00:00''" None]
  by simp

subsection \<open>Facts about the orchestrator\<close>

lemma js_insert_hd:
  "js_insert cmp x ys = z # zs \<Longrightarrow>
     z = (case ys of [] \<Rightarrow> x | y # _ \<Rightarrow> if cmp x y \<le> 0 then x else y)"
  by (cases ys) (auto split: if_splits)

lemma js_sort_Nil_iff: "js_sort cmp xs = [] \<longleftrightarrow> xs = []"
proof (cases xs)
  case (Cons x xs')
  then show ?thesis by (cases "js_sort cmp xs'") auto
qed simp

lemma cmp_better:
  "bookedTime h x \<noteq> None \<Longrightarrow> bookedTime h c \<noteq> None \<Longrightarrow>
     (compareStatuses h x c \<le> 0) = better h x c"
  by (auto simp: compareStatuses_def better_def split: if_splits)

lemma better_trans: "better h a b \<Longrightarrow> better h b c \<Longrightarrow> better h a c"
  by (auto simp: better_def)

lemma better_total:
  "bookedTime h a \<noteq> None \<Longrightarrow> bookedTime h b \<noteq> None \<Longrightarrow> \<not> better h a b \<Longrightarrow> better h b a"
  by (auto simp: better_def)

lemma better_refl: "bookedTime h a \<noteq> None \<Longrightarrow> better h a a"
  by (auto simp: better_def)

lemma tied_better: "bookedTime h a \<noteq> None \<Longrightarrow> tied h b a \<Longrightarrow> better h a b"
  by (auto simp: better_def tied_def)

lemma js_sort_best:
  assumes "\<forall>s\<in>set xs. bookedTime h s \<noteq> None"
      and "js_sort (compareStatuses h) xs = b # rest"
  shows "b \<in> set xs \<and> (\<forall>s\<in>set xs. better h b s) \<and> find (tied h b) xs = Some b"
  using assms
proof (induction xs arbitrary: b rest)
  case Nil
  then show ?case by simp
next
  case (Cons x xs)
  have tx: "bookedTime h x \<noteq> None" using Cons.prems(1) by simp
  show ?case
  proof (cases "js_sort (compareStatuses h) xs")
    case Nil
    then have "xs = []" by (simp add: js_sort_Nil_iff)
    with Cons.prems tx show ?thesis by (simp add: better_refl tied_def)
  next
    case (Cons c cs)
    have all: "\<forall>s\<in>set xs. bookedTime h s \<noteq> None" using Cons.prems(1) by simp
    note IH = Cons.IH [OF all Cons]
    have cin: "c \<in> set xs" and least: "\<forall>s\<in>set xs. better h c s"
      and first: "find (tied h c) xs = Some c"
      using IH by simp_all
    have tc: "bookedTime h c \<noteq> None" using all cin by blast
    have b: "b = (if compareStatuses h x c \<le> 0 then x else c)"
      using Cons.prems(2) Cons js_insert_hd [of "compareStatuses h" x "c # cs" b rest] by simp
    show ?thesis
    proof (cases "better h x c")
      case True
      then have bx: "b = x" using b cmp_better [OF tx tc] by simp
      have "\<forall>s\<in>set xs. better h x s"
        using least True better_trans by blast
      then show ?thesis using bx tx by (simp add: better_refl tied_def)
    next
      case False
      then have bc: "b = c" using b cmp_better [OF tx tc] by simp
      have nt: "\<not> tied h c x" using False tied_better [OF tx] by blast
      have bx: "better h c x" using False better_total [OF tx tc] by blast
      show ?thesis using bc nt bx cin least first by simp
    qed
  qed
qed

lemma map_of_map_set: "map_of (map_set k v m) k' = (if k' = k then Some v else map_of m k')"
  by (induction k v m rule: map_set.induct) auto

lemma keys_map_set:
  "map fst (map_set k v m) = (if k \<in> set (map fst m) then map fst m else map fst m @ [k])"
  by (induction k v m rule: map_set.induct) (auto simp: rev_image_eqI)

lemma set_map_set_subset: "set (map_set k v m) \<subseteq> insert (k, v) (set m)"
  by (induction k v m rule: map_set.induct) auto

lemma wf_map_set: "wf_map m \<Longrightarrow> st_providerId v = k \<Longrightarrow> wf_map (map_set k v m)"
proof -
  assume wf: "wf_map m" and v: "st_providerId v = k"
  have d: "distinct (map fst (map_set k v m))"
    using wf by (auto simp: keys_map_set wf_map_def)
  have "\<forall>kv \<in> set (map_set k v m). st_providerId (snd kv) = fst kv"
    using set_map_set_subset [of k v m] wf v by (auto simp: wf_map_def list_all_iff)
  then show ?thesis using d by (simp add: wf_map_def list_all_iff)
qed

lemma wf_map_lookup: "wf_map m \<Longrightarrow> map_of m k = Some s \<Longrightarrow> st_providerId s = k"
  by (auto simp: wf_map_def list_all_iff dest!: map_of_SomeD)

lemma wf_map_mem: "wf_map m \<Longrightarrow> (k, s) \<in> set m \<Longrightarrow> map_of m k = Some s"
  by (simp add: wf_map_def)

lemma updateStatus_props:
  assumes "wf_map (statusMap st)" "map_of (statusMap st) k = Some s0" "st_providerId s = k"
  shows "wf_map (statusMap (updateStatus st s))"
    and "keys (updateStatus st s) = keys st"
    and "map_of (statusMap (updateStatus st s)) = (map_of (statusMap st))(k \<mapsto> s)"
    and "config (updateStatus st s) = config st"
    and "aborted (updateStatus st s) = aborted st"
    and "notified (updateStatus st s) = notified st @ [s]"
proof -
  have kin: "k \<in> set (map fst (statusMap st))"
    using assms(2) by (metis map_of_eq_None_iff option.distinct(1) set_map)
  show "wf_map (statusMap (updateStatus st s))"
    using assms by (simp add: updateStatus_def wf_map_set)
  show "keys (updateStatus st s) = keys st"
    using kin assms(3) by (simp add: updateStatus_def keys_def keys_map_set)
  show "map_of (statusMap (updateStatus st s)) = (map_of (statusMap st))(k \<mapsto> s)"
    using assms(3) by (auto simp: updateStatus_def map_of_map_set)
  show "config (updateStatus st s) = config st" "aborted (updateStatus st s) = aborted st"
    "notified (updateStatus st s) = notified st @ [s]"
    by (simp_all add: updateStatus_def)
qed

lemma launch_props:
  assumes "wf_map (statusMap st)"
  shows "wf_map (statusMap (launch st p))"
    and "keys (launch st p) = keys st"
    and "config (launch st p) = config st"
    and "aborted (launch st p) = aborted st"
    and "stat (launch st p) k = (if k = id_p p \<and> k \<in> set (keys st) then Some Calling else stat st k)"
proof -
  show "wf_map (statusMap (launch st p))" "keys (launch st p) = keys st"
    "config (launch st p) = config st" "aborted (launch st p) = aborted st"
    using assms
    by (auto simp: launch_def updateStatus_props wf_map_lookup split: option.splits)
  show "stat (launch st p) k = (if k = id_p p \<and> k \<in> set (keys st) then Some Calling else stat st k)"
  proof (cases "map_of (statusMap st) (id_p p)")
    case None
    then have "id_p p \<notin> set (keys st)" by (simp add: keys_def map_of_eq_None_iff)
    then show ?thesis using None by (auto simp: launch_def)
  next
    case (Some s)
    then have "id_p p \<in> set (keys st)"
      by (metis keys_def map_of_eq_None_iff option.distinct(1) set_map)
    moreover have "st_providerId (s\<lparr>status := Calling\<rparr>) = id_p p"
      using assms Some by (simp add: wf_map_lookup)
    ultimately show ?thesis
      using Some updateStatus_props(3) [OF assms Some, of "s\<lparr>status := Calling\<rparr>"]
      by (auto simp: launch_def stat_def)
  qed
qed

lemma settle_props:
  assumes "wf_map (statusMap st)"
  shows "wf_map (statusMap (settle h rc slot desc st ip))"
    and "keys (settle h rc slot desc st ip) = keys st"
    and "config (settle h rc slot desc st ip) = config st"
    and "aborted (settle h rc slot desc st ip) = aborted st"
    and "k \<noteq> id_p (snd ip) \<Longrightarrow> stat (settle h rc slot desc st ip) k = stat st k"
    and "id_p (snd ip) \<in> set (keys st) \<Longrightarrow>
           \<exists>c. stat (settle h rc slot desc st ip) (id_p (snd ip)) = Some c \<and> settled c"
    and "id_p (snd ip) \<notin> set (keys st) \<Longrightarrow> settle h rc slot desc st ip = st"
proof -
  show "wf_map (statusMap (settle h rc slot desc st ip))" "keys (settle h rc slot desc st ip) = keys st"
    "config (settle h rc slot desc st ip) = config st" "aborted (settle h rc slot desc st ip) = aborted st"
    using assms
    by (auto simp: settle_def Let_def updateStatus_props wf_map_lookup split: option.splits)
  show "id_p (snd ip) \<notin> set (keys st) \<Longrightarrow> settle h rc slot desc st ip = st"
    by (auto simp: settle_def keys_def map_of_eq_None_iff [symmetric] simp del: map_of_eq_None_iff
             split: option.splits)
  show "k \<noteq> id_p (snd ip) \<Longrightarrow> stat (settle h rc slot desc st ip) k = stat st k"
  proof (cases "map_of (statusMap st) (id_p (snd ip))")
    case None
    then show ?thesis by (simp add: settle_def)
  next
    case (Some s)
    assume ne: "k \<noteq> id_p (snd ip)"
    have id: "st_providerId s = id_p (snd ip)" using assms Some by (simp add: wf_map_lookup)
    show ?thesis
      using Some ne id
        updateStatus_props(3) [OF assms Some, of "s\<lparr>status := Timeout\<rparr>"]
        updateStatus_props(3) [OF assms Some, of "s\<lparr>status := Success, result := Some r\<rparr>" for r]
        updateStatus_props(3) [OF assms Some, of "s\<lparr>status := Failed, result := Some r\<rparr>" for r]
      by (auto simp: settle_def Let_def stat_def)
  qed
  show "id_p (snd ip) \<in> set (keys st) \<Longrightarrow>
           \<exists>c. stat (settle h rc slot desc st ip) (id_p (snd ip)) = Some c \<and> settled c"
  proof -
    assume "id_p (snd ip) \<in> set (keys st)"
    then obtain s where Some: "map_of (statusMap st) (id_p (snd ip)) = Some s"
      by (metis keys_def map_of_eq_None_iff not_Some_eq set_map)
    have id: "st_providerId s = id_p (snd ip)" using assms Some by (simp add: wf_map_lookup)
    show ?thesis
      using Some id
        updateStatus_props(3) [OF assms Some, of "s\<lparr>status := Timeout\<rparr>"]
        updateStatus_props(3) [OF assms Some, of "s\<lparr>status := Success, result := Some r\<rparr>" for r]
        updateStatus_props(3) [OF assms Some, of "s\<lparr>status := Failed, result := Some r\<rparr>" for r]
      by (auto simp: settle_def Let_def stat_def settled_def)
  qed
qed

lemma foldl_launch_props:
  assumes "wf_map (statusMap st)"
  shows "wf_map (statusMap (foldl launch st ps)) \<and> keys (foldl launch st ps) = keys st
     \<and> config (foldl launch st ps) = config st \<and> aborted (foldl launch st ps) = aborted st
     \<and> (\<forall>k. k \<notin> id_p ` set ps \<longrightarrow> stat (foldl launch st ps) k = stat st k)"
  using assms
proof (induction ps arbitrary: st)
  case Nil
  then show ?case by simp
next
  case (Cons p ps)
  note l = launch_props [OF Cons.prems, where p=p]
  show ?case
    using Cons.IH [OF l(1)] l by auto
qed

lemma foldl_settle_props:
  assumes "wf_map (statusMap st)"
  shows "wf_map (statusMap (foldl (settle h rc slot desc) st ips))
     \<and> keys (foldl (settle h rc slot desc) st ips) = keys st
     \<and> config (foldl (settle h rc slot desc) st ips) = config st
     \<and> aborted (foldl (settle h rc slot desc) st ips) = aborted st
     \<and> (\<forall>k. k \<notin> (id_p \<circ> snd) ` set ips \<longrightarrow> stat (foldl (settle h rc slot desc) st ips) k = stat st k)
     \<and> (\<forall>k. k \<in> (id_p \<circ> snd) ` set ips \<and> k \<in> set (keys st)
            \<longrightarrow> (\<exists>c. stat (foldl (settle h rc slot desc) st ips) k = Some c \<and> settled c))"
  using assms
proof (induction ips arbitrary: st)
  case Nil
  then show ?case by simp
next
  case (Cons ip ips)
  let ?st1 = "settle h rc slot desc st ip"
  note s = settle_props [OF Cons.prems, where h=h and rc=rc and slot=slot and desc=desc and ip=ip]
  note IH = Cons.IH [OF s(1)]
  have a: "\<forall>k. k \<notin> (id_p \<circ> snd) ` set (ip # ips)
          \<longrightarrow> stat (foldl (settle h rc slot desc) st (ip # ips)) k = stat st k"
    using IH s(5) by auto
  have b: "\<exists>c. stat (foldl (settle h rc slot desc) st (ip # ips)) k = Some c \<and> settled c"
    if k: "k \<in> (id_p \<circ> snd) ` set (ip # ips)" "k \<in> set (keys st)" for k
  proof (cases "k \<in> (id_p \<circ> snd) ` set ips")
    case True
    then show ?thesis using IH k(2) s(2) by simp
  next
    case False
    then have "k = id_p (snd ip)" using k(1) by auto
    moreover have "stat (foldl (settle h rc slot desc) ?st1 ips) k = stat ?st1 k"
      using IH False by blast
    ultimately show ?thesis using s(6) k(2) by simp
  qed
  show ?case
    using IH s(2,3,4) a b by simp
qed

lemma executeBatch_props:
  assumes "wf_map (statusMap st)"
  shows "wf_map (statusMap (executeBatch h rc slot desc st batch))
     \<and> keys (executeBatch h rc slot desc st batch) = keys st
     \<and> config (executeBatch h rc slot desc st batch) = config st
     \<and> aborted (executeBatch h rc slot desc st batch) = aborted st
     \<and> (\<forall>k. k \<notin> (id_p \<circ> snd) ` set batch \<longrightarrow> stat (executeBatch h rc slot desc st batch) k = stat st k)
     \<and> (\<forall>k. k \<in> (id_p \<circ> snd) ` set batch \<and> k \<in> set (keys st)
            \<longrightarrow> (\<exists>c. stat (executeBatch h rc slot desc st batch) k = Some c \<and> settled c))"
proof -
  let ?st1 = "foldl launch st (map snd batch)"
  let ?order = "filter (\<lambda>ip. \<not> timerWins rc (fst ip)) batch @ filter (\<lambda>ip. timerWins rc (fst ip)) batch"
  note l = foldl_launch_props [OF assms, where ps="map snd batch"]
  have wf1: "wf_map (statusMap ?st1)" using l by simp
  note s = foldl_settle_props [OF wf1, where h=h and rc=rc and slot=slot and desc=desc and ips="?order"]
  have ids: "(id_p \<circ> snd) ` set ?order = (id_p \<circ> snd) ` set batch" by auto
  have ids2: "id_p ` set (map snd batch) = (id_p \<circ> snd) ` set batch" by auto
  have eq: "executeBatch h rc slot desc st batch = foldl (settle h rc slot desc) ?st1 ?order"
    by (simp add: executeBatch_def Let_def)
  show ?thesis
    unfolding eq using s l unfolding ids ids2 by simp
qed

lemma cancel_fold:
  assumes "wf_map (statusMap st)" "distinct (map fst l)"
      and "\<forall>kv\<in>set l. map_of (statusMap st) (fst kv) = Some (snd kv)"
  shows "wf_map (statusMap (foldl cancelStep st l)) \<and> keys (foldl cancelStep st l) = keys st
     \<and> config (foldl cancelStep st l) = config st \<and> aborted (foldl cancelStep st l) = aborted st
     \<and> (\<forall>k. map_of (statusMap (foldl cancelStep st l)) k
            = (case map_of l k of Some s \<Rightarrow> Some (cancelled_of s) | None \<Rightarrow> map_of (statusMap st) k))
     \<and> notified (foldl cancelStep st l)
          = notified st @ map (\<lambda>s. s\<lparr>status := Cancelled\<rparr>) (filter (\<lambda>s. status s = Pending) (map snd l))"
  using assms
proof (induction l arbitrary: st)
  case Nil
  then show ?case by simp
next
  case (Cons kv l)
  obtain k s where kv: "kv = (k, s)" by (cases kv)
  have look: "map_of (statusMap st) k = Some s" using Cons.prems(3) kv by simp
  have id: "st_providerId s = k" using Cons.prems(1) look by (rule wf_map_lookup)
  let ?st1 = "cancelStep st kv"
  have knl: "k \<notin> fst ` set l" using Cons.prems(2) kv by simp
  have st1: "wf_map (statusMap ?st1) \<and> keys ?st1 = keys st \<and> config ?st1 = config st
      \<and> aborted ?st1 = aborted st
      \<and> map_of (statusMap ?st1) = (map_of (statusMap st))(k \<mapsto> cancelled_of s)
      \<and> notified ?st1 = notified st @ (if status s = Pending then [s\<lparr>status := Cancelled\<rparr>] else [])"
  proof (cases "status s = Pending")
    case True
    have id': "st_providerId (s\<lparr>status := Cancelled\<rparr>) = k" using id by simp
    show ?thesis
      using True kv updateStatus_props [OF Cons.prems(1) look id']
      by (simp add: cancelStep_def cancelled_of_def)
  next
    case False
    then show ?thesis using kv look Cons.prems(1)
      by (auto simp: cancelStep_def cancelled_of_def)
  qed
  have pre3: "\<forall>kv'\<in>set l. map_of (statusMap ?st1) (fst kv') = Some (snd kv')"
    using Cons.prems(3) st1 knl by auto
  have d: "distinct (map fst l)" using Cons.prems(2) by simp
  note IH = Cons.IH [OF conjunct1 [OF st1] d pre3]
  have m: "map_of (statusMap (foldl cancelStep ?st1 l)) k'
            = (case map_of (kv # l) k' of Some s \<Rightarrow> Some (cancelled_of s)
               | None \<Rightarrow> map_of (statusMap st) k')" for k'
  proof (cases "k' = k")
    case True
    then have "map_of l k' = None" using knl by (simp add: map_of_eq_None_iff)
    then show ?thesis using IH st1 True kv by simp
  next
    case False
    have a: "map_of (statusMap ?st1) k' = map_of (statusMap st) k'"
      using st1 False by simp
    have b: "map_of (kv # l) k' = map_of l k'" using False kv by simp
    have c: "map_of (statusMap (foldl cancelStep ?st1 l)) k'
            = (case map_of l k' of Some s \<Rightarrow> Some (cancelled_of s)
               | None \<Rightarrow> map_of (statusMap ?st1) k')"
      using IH by blast
    show ?thesis by (simp only: a b c)
  qed
  have n: "notified (foldl cancelStep ?st1 l)
          = notified st @ map (\<lambda>s. s\<lparr>status := Cancelled\<rparr>)
                             (filter (\<lambda>s. status s = Pending) (map snd (kv # l)))"
    using IH st1 kv by simp
  have r: "wf_map (statusMap (foldl cancelStep ?st1 l)) \<and> keys (foldl cancelStep ?st1 l) = keys st
     \<and> config (foldl cancelStep ?st1 l) = config st \<and> aborted (foldl cancelStep ?st1 l) = aborted st"
    using IH st1 by simp
  show ?case
    using r m n by simp
qed

lemma cancelRemainingCalls_props:
  assumes "wf_map (statusMap st)"
  shows "wf_map (statusMap (cancelRemainingCalls st))"
    and "keys (cancelRemainingCalls st) = keys st"
    and "config (cancelRemainingCalls st) = config st"
    and "aborted (cancelRemainingCalls st)"
    and "map_of (statusMap (cancelRemainingCalls st)) k
           = map_option cancelled_of (map_of (statusMap st) k)"
    and "notified (cancelRemainingCalls st)
          = notified st @ map (\<lambda>s. s\<lparr>status := Cancelled\<rparr>)
                             (filter (\<lambda>s. status s = Pending) (map snd (statusMap st)))"
proof -
  have eq: "cancelRemainingCalls st = (foldl cancelStep st (statusMap st))\<lparr>aborted := True\<rparr>"
    by (simp add: cancelRemainingCalls_def cancelStep_def [abs_def])
  have d: "distinct (map fst (statusMap st))" using assms by (simp add: wf_map_def)
  have p: "\<forall>kv\<in>set (statusMap st). map_of (statusMap st) (fst kv) = Some (snd kv)"
    using d by auto
  note f = cancel_fold [OF assms d p]
  show "wf_map (statusMap (cancelRemainingCalls st))" "keys (cancelRemainingCalls st) = keys st"
    "config (cancelRemainingCalls st) = config st" "aborted (cancelRemainingCalls st)"
    using f by (simp_all add: eq keys_def)
  show "map_of (statusMap (cancelRemainingCalls st)) k
           = map_option cancelled_of (map_of (statusMap st) k)"
    using f by (simp add: eq split: option.splits)
  show "notified (cancelRemainingCalls st)
          = notified st @ map (\<lambda>s. s\<lparr>status := Cancelled\<rparr>)
                             (filter (\<lambda>s. status s = Pending) (map snd (statusMap st)))"
    using f by (simp add: eq)
qed

lemma stat_cancel:
  "wf_map (statusMap st) \<Longrightarrow>
     stat (cancelRemainingCalls st) k
       = (if stat st k = Some Pending then Some Cancelled else stat st k)"
proof (cases "map_of (statusMap st) k")
  case None
  assume "wf_map (statusMap st)"
  then show ?thesis using None cancelRemainingCalls_props(5) [of st k] by (simp add: stat_def)
next
  case (Some s)
  assume "wf_map (statusMap st)"
  then show ?thesis using Some cancelRemainingCalls_props(5) [of st k]
    by (simp add: stat_def cancelled_of_def)
qed

lemma checkResults_stop:
  "stopOnFirstSuccess (config st) \<Longrightarrow>
     fst (checkResults st None ps)
       = (if \<exists>p\<in>set ps. stat st (id_p p) = Some Success then cancelRemainingCalls st else st)
     \<and> (snd (checkResults st None ps) \<noteq> None) = (\<exists>p\<in>set ps. stat st (id_p p) = Some Success)"
  by (induction ps) (auto simp: stat_def)

lemma checkResults_nostop:
  "\<not> stopOnFirstSuccess (config st) \<Longrightarrow> fst (checkResults st fs ps) = st"
  by (induction ps arbitrary: fs) auto

lemma stat_Some_key: "stat st k = Some c \<Longrightarrow> k \<in> set (keys st)"
  by (auto simp: stat_def keys_def dest!: map_of_SomeD intro: rev_image_eqI)

lemma settled_simps: "settled c \<Longrightarrow> c \<noteq> Pending \<and> c \<noteq> Calling"
  by (auto simp: settled_def)

lemma executeBatch_no_calling:
  assumes wf: "wf_map (statusMap st)" and nc: "\<forall>k. stat st k \<noteq> Some Calling"
  shows "stat (executeBatch h rc slot desc st batch) k \<noteq> Some Calling"
proof
  let ?st1 = "executeBatch h rc slot desc st batch"
  note e = executeBatch_props [OF wf, where h=h and rc=rc and slot=slot and desc=desc and batch=batch]
  assume c: "stat ?st1 k = Some Calling"
  then have key: "k \<in> set (keys st)" using stat_Some_key e by metis
  show False
  proof (cases "k \<in> (id_p \<circ> snd) ` set batch")
    case True
    then obtain c' where "stat ?st1 k = Some c'" "settled c'" using e key by blast
    then show False using c by (simp add: settled_def)
  next
    case False
    then have "stat ?st1 k = stat st k" using e by blast
    then have "stat st k = Some Calling" using c by simp
    then show False using nc by blast
  qed
qed

lemma executeBatch_pending:
  assumes wf: "wf_map (statusMap st)"
      and p: "stat (executeBatch h rc slot desc st batch) k = Some Pending"
  shows "k \<notin> (id_p \<circ> snd) ` set batch \<and> stat st k = Some Pending"
proof -
  let ?st1 = "executeBatch h rc slot desc st batch"
  note e = executeBatch_props [OF wf, where h=h and rc=rc and slot=slot and desc=desc and batch=batch]
  have key: "k \<in> set (keys st)" using stat_Some_key [OF p] e by simp
  have nb: "k \<notin> (id_p \<circ> snd) ` set batch"
  proof
    assume "k \<in> (id_p \<circ> snd) ` set batch"
    then obtain c' where "stat ?st1 k = Some c'" "settled c'" using e key by blast
    then show False using p by (simp add: settled_def)
  qed
  then have "stat ?st1 k = stat st k" using e by blast
  then show ?thesis using nb p by simp
qed

lemma checkResults_cases:
  "fst (checkResults st fs ps) = st \<or> fst (checkResults st fs ps) = cancelRemainingCalls st"
  by (induction ps arbitrary: fs) auto

lemma runBatches_wf:
  assumes "wf_map (statusMap st)" and "\<forall>k. stat st k \<noteq> Some Calling"
  shows "wf_map (statusMap (runBatches h rc slot desc st fs bs))
     \<and> keys (runBatches h rc slot desc st fs bs) = keys st
     \<and> config (runBatches h rc slot desc st fs bs) = config st
     \<and> (\<forall>k. stat (runBatches h rc slot desc st fs bs) k \<noteq> Some Calling)"
  using assms
proof (induction bs arbitrary: st fs)
  case Nil
  then show ?case by simp
next
  case (Cons batch rest)
  note wf = Cons.prems(1) and nc = Cons.prems(2)
  show ?case
  proof (cases "aborted st \<or> (stopOnFirstSuccess (config st) \<and> fs \<noteq> None)")
    case True
    then have "runBatches h rc slot desc st fs (batch # rest) = st" by auto
    then show ?thesis using wf nc by simp
  next
    case False
    let ?st1 = "executeBatch h rc slot desc st batch"
    let ?ck = "checkResults ?st1 fs (map snd batch)"
    note e = executeBatch_props [OF wf, where h=h and rc=rc and slot=slot and desc=desc and batch=batch]
    have wf1: "wf_map (statusMap ?st1)" using e by simp
    have nc1: "\<forall>k. stat ?st1 k \<noteq> Some Calling"
      using executeBatch_no_calling [OF wf nc] by blast
    have r: "runBatches h rc slot desc st fs (batch # rest)
               = runBatches h rc slot desc (fst ?ck) (snd ?ck) rest"
      using False by (auto simp: Let_def)
    have pre: "wf_map (statusMap (fst ?ck)) \<and> keys (fst ?ck) = keys st \<and> config (fst ?ck) = config st
        \<and> (\<forall>k. stat (fst ?ck) k \<noteq> Some Calling)"
    proof (cases "fst ?ck = ?st1")
      case True
      then show ?thesis using wf1 e nc1 by simp
    next
      case False
      then have f: "fst ?ck = cancelRemainingCalls ?st1"
        using checkResults_cases [of ?st1 fs "map snd batch"] by blast
      have "\<forall>k. stat (cancelRemainingCalls ?st1) k \<noteq> Some Calling"
        using nc1 by (simp add: stat_cancel [OF wf1])
      then show ?thesis
        using f cancelRemainingCalls_props(1,2,3) [OF wf1] e by simp
    qed
    have "wf_map (statusMap (runBatches h rc slot desc (fst ?ck) (snd ?ck) rest))
     \<and> keys (runBatches h rc slot desc (fst ?ck) (snd ?ck) rest) = keys (fst ?ck)
     \<and> config (runBatches h rc slot desc (fst ?ck) (snd ?ck) rest) = config (fst ?ck)
     \<and> (\<forall>k. stat (runBatches h rc slot desc (fst ?ck) (snd ?ck) rest) k \<noteq> Some Calling)"
      using pre by (intro Cons.IH) blast+
    then show ?thesis using r pre by simp
  qed
qed

lemma runBatches_final:
  assumes "wf_map (statusMap st)"
      and "\<forall>k. stat st k \<noteq> Some Calling"
      and "\<forall>k. stat st k = Some Pending \<longrightarrow>
             k \<in> (id_p \<circ> snd) ` set (concat bs) \<and> \<not> aborted st
             \<and> \<not> (stopOnFirstSuccess (config st) \<and> fs \<noteq> None)"
  shows "wf_map (statusMap (runBatches h rc slot desc st fs bs))
     \<and> keys (runBatches h rc slot desc st fs bs) = keys st
     \<and> config (runBatches h rc slot desc st fs bs) = config st
     \<and> (\<forall>k. stat (runBatches h rc slot desc st fs bs) k \<noteq> Some Calling
            \<and> stat (runBatches h rc slot desc st fs bs) k \<noteq> Some Pending)"
  using assms
proof (induction bs arbitrary: st fs)
  case Nil
  then show ?case by simp
next
  case (Cons batch rest)
  note wf = Cons.prems(1) and nc = Cons.prems(2) and pend = Cons.prems(3)
  show ?case
  proof (cases "aborted st \<or> (stopOnFirstSuccess (config st) \<and> fs \<noteq> None)")
    case True
    then have r: "runBatches h rc slot desc st fs (batch # rest) = st" by auto
    have "\<forall>k. stat st k \<noteq> Some Pending" using pend True by blast
    then show ?thesis using r wf nc by simp
  next
    case False
    let ?st1 = "executeBatch h rc slot desc st batch"
    let ?ck = "checkResults ?st1 fs (map snd batch)"
    note e = executeBatch_props [OF wf, where h=h and rc=rc and slot=slot and desc=desc and batch=batch]
    have wf1: "wf_map (statusMap ?st1)" using e by simp
    have cfg1: "config ?st1 = config st" and ab1: "aborted ?st1 = aborted st" using e by simp_all
    have nc1: "\<forall>k. stat ?st1 k \<noteq> Some Calling"
      using executeBatch_no_calling [OF wf nc] by blast
    have p1: "\<forall>k. stat ?st1 k = Some Pending \<longrightarrow> k \<in> (id_p \<circ> snd) ` set (concat rest)"
    proof (intro allI impI)
      fix k assume "stat ?st1 k = Some Pending"
      then have nb: "k \<notin> (id_p \<circ> snd) ` set batch" and sp: "stat st k = Some Pending"
        using executeBatch_pending [OF wf] by blast+
      have "k \<in> (id_p \<circ> snd) ` set (concat (batch # rest))" using pend sp by blast
      then have "k \<in> (id_p \<circ> snd) ` set batch \<union> (id_p \<circ> snd) ` set (concat rest)"
        by (simp add: image_Un)
      then show "k \<in> (id_p \<circ> snd) ` set (concat rest)" using nb by blast
    qed
    have r: "runBatches h rc slot desc st fs (batch # rest)
               = runBatches h rc slot desc (fst ?ck) (snd ?ck) rest"
    proof -
      have na: "\<not> aborted st" using False by blast
      have ns: "\<not> (stopOnFirstSuccess (config st) \<and> fs \<noteq> None)" using False by blast
      show ?thesis using na ns by (auto simp: Let_def)
    qed
    have pre: "wf_map (statusMap (fst ?ck)) \<and> keys (fst ?ck) = keys st \<and> config (fst ?ck) = config st
        \<and> (\<forall>k. stat (fst ?ck) k \<noteq> Some Calling)
        \<and> (\<forall>k. stat (fst ?ck) k = Some Pending \<longrightarrow>
             k \<in> (id_p \<circ> snd) ` set (concat rest) \<and> \<not> aborted (fst ?ck)
             \<and> \<not> (stopOnFirstSuccess (config (fst ?ck)) \<and> snd ?ck \<noteq> None))"
    proof (cases "stopOnFirstSuccess (config st)")
      case stop: True
      then have fs: "fs = None" using False by simp
      have stop1: "stopOnFirstSuccess (config ?st1)" using stop cfg1 by simp
      note c = checkResults_stop [OF stop1, of "map snd batch"]
      show ?thesis
      proof (cases "\<exists>p\<in>set (map snd batch). stat ?st1 (id_p p) = Some Success")
        case True
        then have f: "fst ?ck = cancelRemainingCalls ?st1" using c fs by simp
        have "\<forall>k. stat (cancelRemainingCalls ?st1) k \<noteq> Some Calling
                 \<and> stat (cancelRemainingCalls ?st1) k \<noteq> Some Pending"
          using nc1 by (simp add: stat_cancel [OF wf1])
        then show ?thesis
          using f cancelRemainingCalls_props(1,2,3) [OF wf1] e by simp
      next
        case no: False
        then have f: "fst ?ck = ?st1" and sn: "snd ?ck = None" using c fs by simp_all
        show ?thesis using f sn wf1 e nc1 p1 ab1 False by simp
      qed
    next
      case nostop: False
      then have "\<not> stopOnFirstSuccess (config ?st1)" using cfg1 by simp
      then have f: "fst ?ck = ?st1" by (rule checkResults_nostop)
      show ?thesis using f wf1 e nc1 p1 ab1 False nostop by simp
    qed
    have "wf_map (statusMap (runBatches h rc slot desc (fst ?ck) (snd ?ck) rest))
     \<and> keys (runBatches h rc slot desc (fst ?ck) (snd ?ck) rest) = keys (fst ?ck)
     \<and> config (runBatches h rc slot desc (fst ?ck) (snd ?ck) rest) = config (fst ?ck)
     \<and> (\<forall>k. stat (runBatches h rc slot desc (fst ?ck) (snd ?ck) rest) k \<noteq> Some Calling
            \<and> stat (runBatches h rc slot desc (fst ?ck) (snd ?ck) rest) k \<noteq> Some Pending)"
      using pre by (intro Cons.IH) blast+
    then show ?thesis using r pre by simp
  qed
qed

lemma sliceIndex_int: "0 \<le> j \<Longrightarrow> sliceIndex len (Num (of_int j)) = min j (int len)"
  by (simp add: sliceIndex_def Let_def)

lemma js_slice_step:
  "0 \<le> i \<Longrightarrow> 0 < b \<Longrightarrow> i < int (length items) \<Longrightarrow>
     take (nat i) items @ js_slice items (Num (of_int i)) (Num (of_int (i + b)))
       = take (nat (i + b)) items"
proof -
  assume i: "0 \<le> i" and b: "0 < b" and lt: "i < int (length items)"
  let ?len = "int (length items)"
  have ib: "0 \<le> i + b" using i b by simp
  have s: "js_slice items (Num (of_int i)) (Num (of_int (i + b)))
             = take (nat (min (i + b) ?len - i)) (drop (nat i) items)"
    using lt by (simp only: js_slice_def Let_def sliceIndex_int [OF i] sliceIndex_int [OF ib])
                (simp add: min_def)
  have "take (nat i) items @ take (nat (min (i + b) ?len - i)) (drop (nat i) items)
          = take (nat i + nat (min (i + b) ?len - i)) items"
    by (simp add: take_add)
  also have "nat i + nat (min (i + b) ?len - i) = nat (min (i + b) ?len)"
    using i b lt by (cases "i + b \<le> ?len") (simp_all add: min_def nat_add_distrib [symmetric])
  also have "take (nat (min (i + b) ?len)) items = take (nat (i + b)) items"
    by (simp add: min_def)
  finally show ?thesis using s by simp
qed

lemma createBatches_from_total:
  "0 < b \<Longrightarrow> 0 \<le> i \<Longrightarrow> int (length items) + b \<le> 2 ^ 53 \<Longrightarrow> concat bs = take (nat i) items \<Longrightarrow>
     \<exists>y. createBatches_from items (Some (Num (of_int b))) (Num (of_int i)) bs = Some y
        \<and> concat y = items"
proof (induction "nat (int (length items) - i)" arbitrary: i bs rule: less_induct)
  case less
  show ?case
  proof (cases "i < int (length items)")
    case True
    have "\<bar>i + b\<bar> \<le> 2 ^ 53" using less.prems True by simp
    then have "toDouble (of_int (i + b)) = Num (of_int (i + b))" by (rule toDouble_int)
    then have add: "js_add (Num (of_int i)) (toNumber (Some (Num (of_int b)))) = Num (of_int (i + b))"
      by (simp add: js_add_def toNumber_def)
    have lt: "js_less (Num (of_int i)) (Num (real (length items)))"
      using True by (simp add: js_less_def)
    have c: "concat (bs @ [js_slice items (Num (of_int i)) (Num (of_int (i + b)))])
               = take (nat (i + b)) items"
      using less.prems(4) js_slice_step [OF less.prems(2) less.prems(1) True]
      by (simp del: of_int_add)
    have m: "nat (int (length items) - (i + b)) < nat (int (length items) - i)"
      using less.prems True by simp
    have "\<exists>y. createBatches_from items (Some (Num (of_int b))) (Num (of_int (i + b)))
                 (bs @ [js_slice items (Num (of_int i)) (Num (of_int (i + b)))]) = Some y
            \<and> concat y = items"
      using less.hyps [OF m] less.prems(1,2,3) c by simp
    then show ?thesis using lt by (subst createBatches_from.simps) (simp only: add if_True)
  next
    case False
    then have "concat bs = items" using less.prems by simp
    moreover have "\<not> js_less (Num (of_int i)) (Num (real (length items)))"
      using False by (simp add: js_less_def)
    ultimately show ?thesis by (subst createBatches_from.simps) simp
  qed
qed

text \<open>
  The batches that \<open>createBatches\<close> makes: for a batch size that is a positive integer they
  hold every item, in order; for \<open>Infinity\<close> there is one batch of all items; for \<open>undefined\<close>
  and \<open>NaN\<close> there is one batch, and it is empty.
\<close>

lemma createBatches_integer:
  "0 < n \<Longrightarrow> int (length items) + n \<le> 2 ^ 53 \<Longrightarrow>
     \<exists>bs. createBatches items (Some (Num (of_int n))) = Some bs \<and> concat bs = items"
  using createBatches_from_total [of n 0 items "[]"] by (simp add: createBatches_def)

lemma createBatches_PosInf:
  "createBatches items (Some PosInf) = Some (if items = [] then [] else [items])"
proof (cases "items = []")
  case True
  show ?thesis
    unfolding createBatches_def
    by (subst createBatches_from.simps) (simp add: js_less_def True)
next
  case False
  have a: "js_add (Num 0) (toNumber (Some PosInf)) = PosInf" by (simp add: js_add_def toNumber_def)
  have s: "js_slice items (Num 0) PosInf = items" by (simp add: js_slice_def sliceIndex_def)
  have "createBatches_from items (Some PosInf) PosInf [items] = Some [items]"
    by (subst createBatches_from.simps) (simp add: js_less_def)
  then show ?thesis
    using False
    by (simp add: createBatches_def createBatches_from.simps [of items _ "Num 0"] js_less_def a s)
qed

lemma createBatches_NaN:
  "toNumber b = NaN \<Longrightarrow> createBatches items b = Some (if items = [] then [] else [[]])"
proof (cases "items = []")
  case True
  show ?thesis
    unfolding createBatches_def
    by (subst createBatches_from.simps) (simp add: js_less_def True)
next
  case False
  assume b: "toNumber b = NaN"
  have a: "js_add (Num 0) (toNumber b) = NaN" by (simp add: js_add_def b)
  have s: "js_slice items (Num 0) NaN = []" by (simp add: js_slice_def sliceIndex_def)
  have "createBatches_from items b NaN [[]] = Some [[]]"
    by (subst createBatches_from.simps) (simp add: js_less_def)
  then show ?thesis
    using False
    by (simp add: createBatches_def createBatches_from.simps [of items _ "Num 0"] js_less_def a s)
qed

lemma init_fold:
  assumes "wf_map (statusMap st)" "\<forall>kv\<in>set (statusMap st). status (snd kv) = Pending"
  shows "wf_map (statusMap (foldl initStep st ps))
     \<and> (\<forall>kv\<in>set (statusMap (foldl initStep st ps)). status (snd kv) = Pending)
     \<and> set (keys (foldl initStep st ps)) = set (keys st) \<union> id_p ` set ps
     \<and> config (foldl initStep st ps) = config st
     \<and> aborted (foldl initStep st ps) = aborted st
     \<and> notified (foldl initStep st ps) = notified st
     \<and> (distinct (keys st @ map id_p ps) \<longrightarrow> keys (foldl initStep st ps) = keys st @ map id_p ps)"
  using assms
proof (induction ps arbitrary: st)
  case Nil
  then show ?case by simp
next
  case (Cons p ps)
  let ?v = "\<lparr>st_providerId = id_p p, st_providerName = name p, status = Pending, result = None\<rparr>"
  let ?st1 = "initStep st p"
  have m: "statusMap ?st1 = map_set (id_p p) ?v (statusMap st)" by (simp add: initStep_def)
  have wf1: "wf_map (statusMap ?st1)" using Cons.prems(1) by (simp add: m wf_map_set)
  have p1: "\<forall>kv\<in>set (statusMap ?st1). status (snd kv) = Pending"
    using Cons.prems(2) set_map_set_subset [of "id_p p" ?v "statusMap st"] by (auto simp: m)
  have k1: "keys ?st1 = (if id_p p \<in> set (keys st) then keys st else keys st @ [id_p p])"
    by (simp add: keys_def m keys_map_set)
  have o1: "config ?st1 = config st" "aborted ?st1 = aborted st" "notified ?st1 = notified st"
    by (simp_all add: initStep_def)
  note IH = Cons.IH [OF wf1 p1]
  have s: "set (keys (foldl initStep ?st1 ps)) = set (keys st) \<union> id_p ` set (p # ps)"
    using IH k1 by auto
  have d: "keys (foldl initStep ?st1 ps) = keys st @ map id_p (p # ps)"
    if "distinct (keys st @ map id_p (p # ps))"
  proof -
    have "id_p p \<notin> set (keys st)" using that by auto
    then have "keys ?st1 = keys st @ [id_p p]" using k1 by simp
    moreover have "distinct (keys ?st1 @ map id_p ps)" using that calculation by auto
    ultimately show ?thesis using IH by simp
  qed
  show ?case using IH s d o1 by simp
qed

lemma initStatuses_props:
  assumes "statusMap st = []"
  shows "wf_map (statusMap (initStatuses st providers))"
    and "\<forall>k. stat (initStatuses st providers) k \<noteq> Some Calling"
    and "\<forall>k. stat (initStatuses st providers) k = Some Pending \<longrightarrow> k \<in> id_p ` set providers"
    and "set (keys (initStatuses st providers)) = id_p ` set providers"
    and "config (initStatuses st providers) = config st"
    and "aborted (initStatuses st providers) = aborted st"
    and "distinct (map id_p providers) \<Longrightarrow> keys (initStatuses st providers) = map id_p providers"
proof -
  have eq: "initStatuses st providers = foldl initStep st providers"
    by (simp add: initStatuses_def initStep_def [abs_def])
  have wf0: "wf_map (statusMap st)" using assms by (simp add: wf_map_def)
  have p0: "\<forall>kv\<in>set (statusMap st). status (snd kv) = Pending" using assms by simp
  note f = init_fold [OF wf0 p0, of providers]
  have k0: "keys st = []" using assms by (simp add: keys_def)
  show wf: "wf_map (statusMap (initStatuses st providers))" using f by (simp add: eq)
  show ks: "set (keys (initStatuses st providers)) = id_p ` set providers"
    using f k0 by (simp add: eq)
  show "config (initStatuses st providers) = config st"
    "aborted (initStatuses st providers) = aborted st"
    using f by (simp_all add: eq)
  show "distinct (map id_p providers) \<Longrightarrow> keys (initStatuses st providers) = map id_p providers"
    using f k0 by (simp add: eq)
  have allp: "stat (initStatuses st providers) k = Some c \<Longrightarrow> c = Pending" for k c
  proof -
    assume "stat (initStatuses st providers) k = Some c"
    then obtain s where "map_of (statusMap (initStatuses st providers)) k = Some s" "status s = c"
      by (auto simp: stat_def)
    then have "(k, s) \<in> set (statusMap (initStatuses st providers))" by (auto dest: map_of_SomeD)
    then show "c = Pending" using f \<open>status s = c\<close> by (auto simp: eq)
  qed
  show "\<forall>k. stat (initStatuses st providers) k \<noteq> Some Calling"
    using allp by fastforce
  show "\<forall>k. stat (initStatuses st providers) k = Some Pending \<longrightarrow> k \<in> id_p ` set providers"
    using stat_Some_key ks by blast
qed

lemma partition3:
  "\<forall>s\<in>set xs. status s \<noteq> Pending \<and> status s \<noteq> Calling \<Longrightarrow>
     length (filter (\<lambda>s. status s = Success) xs)
     + length (filter (\<lambda>s. status s = Failed \<or> status s = Timeout) xs)
     + length (filter (\<lambda>s. status s = Cancelled) xs) = length xs"
proof (induction xs)
  case Nil
  then show ?case by simp
next
  case (Cons x xs)
  then show ?case by (cases "status x") auto
qed

lemma partition4:
  "\<forall>s\<in>set xs. status s \<noteq> Calling \<Longrightarrow>
     length (filter (\<lambda>s. status s = Success) xs)
     + length (filter (\<lambda>s. status s = Failed \<or> status s = Timeout) xs)
     + length (filter (\<lambda>s. status s = Cancelled) xs)
     + length (filter (\<lambda>s. status s = Pending) xs) = length xs"
proof (induction xs)
  case Nil
  then show ?case by simp
next
  case (Cons x xs)
  then show ?case by (cases "status x") auto
qed

lemma zip_ids:
  "(id_p \<circ> snd) ` set (zip [0..<length providers] providers) = id_p ` set providers"
proof -
  have "snd ` set (zip [0..<length providers] providers) = set providers"
    by (metis length_upt map_snd_zip minus_nat.diff_0 set_map)
  then show ?thesis by (metis image_comp)
qed

lemma executeSwarm_final:
  assumes "executeSwarm h rc orch providers slot desc = Some (res, st')"
  shows "wf_map (statusMap st')"
    and "callStatuses res = map snd (statusMap st')"
    and "set (keys st') = id_p ` set providers"
    and "distinct (map id_p providers) \<Longrightarrow> keys st' = map id_p providers"
    and "\<forall>s\<in>set (callStatuses res). status s \<noteq> Calling"
    and "totalProviders res = length providers"
    and "successfulBookings res = filter (\<lambda>s. status s = Success) (callStatuses res)"
    and "failedCalls res = filter (\<lambda>s. status s = Failed \<or> status s = Timeout) (callStatuses res)"
    and "cancelledCalls res = filter (\<lambda>s. status s = Cancelled) (callStatuses res)"
    and "bestMatch res = selectBestMatch h (callStatuses res)"
proof -
  let ?orch0 = "orch\<lparr>aborted := False, statusMap := []\<rparr>"
  let ?st0 = "initStatuses ?orch0 providers"
  let ?items = "zip [0..<length providers] providers"
  have e: "statusMap ?orch0 = []" by simp
  note i = initStatuses_props [OF e, of providers]
  obtain batches where cb: "createBatches ?items (maxConcurrentCalls (config ?st0)) = Some batches"
    using assms by (auto simp: executeSwarm_def Let_def split: option.splits)
  have st': "st' = runBatches h rc slot desc ?st0 None batches"
    and res: "res = \<lparr>totalProviders = length providers,
                       successfulBookings = filter (\<lambda>s. status s = Success) (map snd (statusMap st')),
                       failedCalls = filter (\<lambda>s. status s = Failed \<or> status s = Timeout) (map snd (statusMap st')),
                       cancelledCalls = filter (\<lambda>s. status s = Cancelled) (map snd (statusMap st')),
                       bestMatch = selectBestMatch h (map snd (statusMap st')),
                       callStatuses = map snd (statusMap st')\<rparr>"
    using assms cb by (auto simp: executeSwarm_def Let_def)
  note r = runBatches_wf [OF i(1) i(2), where h=h and rc=rc and slot=slot and desc=desc
             and fs=None and bs=batches]
  show wf: "wf_map (statusMap st')" using r by (simp add: st')
  show "callStatuses res = map snd (statusMap st')" by (simp add: res)
  show "set (keys st') = id_p ` set providers" using r i(4) by (simp add: st')
  show "distinct (map id_p providers) \<Longrightarrow> keys st' = map id_p providers"
    using r i(7) by (simp add: st')
  show "\<forall>s\<in>set (callStatuses res). status s \<noteq> Calling"
  proof
    fix s assume "s \<in> set (callStatuses res)"
    then obtain k where "(k, s) \<in> set (statusMap st')" by (auto simp: res)
    then have "map_of (statusMap st') k = Some s" using wf by (simp add: wf_map_mem)
    then have "stat st' k = Some (status s)" by (simp add: stat_def)
    then show "status s \<noteq> Calling" using r st' by metis
  qed
  show "totalProviders res = length providers"
    "successfulBookings res = filter (\<lambda>s. status s = Success) (callStatuses res)"
    "failedCalls res = filter (\<lambda>s. status s = Failed \<or> status s = Timeout) (callStatuses res)"
    "cancelledCalls res = filter (\<lambda>s. status s = Cancelled) (callStatuses res)"
    "bestMatch res = selectBestMatch h (callStatuses res)"
    by (simp_all add: res)
qed

text \<open>When the batches hold every provider, no status is left \<open>pending\<close>.\<close>

lemma executeSwarm_complete:
  assumes "executeSwarm h rc orch providers slot desc = Some (res, st')"
      and "createBatches (zip [0..<length providers] providers) (maxConcurrentCalls (config orch))
             = Some batches"
      and "concat batches = zip [0..<length providers] providers"
  shows "\<forall>s\<in>set (callStatuses res). status s \<noteq> Pending"
proof -
  let ?orch0 = "orch\<lparr>aborted := False, statusMap := []\<rparr>"
  let ?st0 = "initStatuses ?orch0 providers"
  let ?items = "zip [0..<length providers] providers"
  have e: "statusMap ?orch0 = []" by simp
  note i = initStatuses_props [OF e, of providers]
  have cfg: "config ?st0 = config orch" using i(5) by simp
  have st': "st' = runBatches h rc slot desc ?st0 None batches"
    and cs: "callStatuses res = map snd (statusMap st')"
    using assms(1,2) cfg by (auto simp: executeSwarm_def Let_def)
  have ids: "(id_p \<circ> snd) ` set (concat batches) = id_p ` set providers"
    by (simp only: assms(3) zip_ids)
  have na: "\<not> aborted ?st0" using i(6) by simp
  have pend: "\<forall>k. stat ?st0 k = Some Pending \<longrightarrow>
             k \<in> (id_p \<circ> snd) ` set (concat batches) \<and> \<not> aborted ?st0
             \<and> \<not> (stopOnFirstSuccess (config ?st0) \<and> (None :: string option) \<noteq> None)"
    unfolding ids using i(3) na by blast
  note r = runBatches_final [OF i(1) i(2) pend, where h=h and rc=rc and slot=slot and desc=desc]
  have wf: "wf_map (statusMap st')" using r by (simp add: st')
  show ?thesis
  proof
    fix s assume "s \<in> set (callStatuses res)"
    then obtain k where "(k, s) \<in> set (statusMap st')" by (auto simp: cs)
    then have "map_of (statusMap st') k = Some s" using wf by (simp add: wf_map_mem)
    then have "stat st' k = Some (status s)" by (simp add: stat_def)
    then show "status s \<noteq> Pending" using r st' by metis
  qed
qed

lemma selectBestMatch_None:
  assumes "\<forall>s\<in>set statuses. status s \<noteq> Success"
  shows "selectBestMatch h statuses = None"
proof -
  have "filter hasBooking statuses = []"
    using assms by (auto simp: filter_empty_conv hasBooking_def)
  then show ?thesis by (simp add: selectBestMatch_def)
qed

lemma find_filter_eq:
  "\<forall>x\<in>set xs. Q x \<longrightarrow> P x \<Longrightarrow> find Q (filter P xs) = find Q xs"
  by (induction xs) auto

lemma selectBestMatch_best:
  assumes wf: "\<forall>s\<in>set statuses. status s = Success \<longrightarrow> hasBooking s \<and> bookedTime h s \<noteq> None"
      and ex: "\<exists>s\<in>set statuses. status s = Success"
  shows "\<exists>b. selectBestMatch h statuses = Some b \<and> b \<in> set statuses \<and> status b = Success
     \<and> (\<forall>s\<in>set statuses. status s = Success \<longrightarrow> better h b s)
     \<and> find (\<lambda>s. status s = Success \<and> tied h b s) statuses = Some b"
proof -
  let ?succ = "filter hasBooking statuses"
  have succ_set: "set ?succ = {s \<in> set statuses. status s = Success}"
    using wf by (auto simp: hasBooking_def)
  have ne: "?succ \<noteq> []" using ex succ_set by (auto simp: filter_empty_conv)
  then obtain b rest where sorted: "js_sort (compareStatuses h) ?succ = b # rest"
    by (cases "js_sort (compareStatuses h) ?succ") (auto simp: js_sort_Nil_iff)
  have times: "\<forall>s\<in>set ?succ. bookedTime h s \<noteq> None" using wf succ_set by auto
  note best = js_sort_best [OF times sorted]
  have sel: "selectBestMatch h statuses = Some b"
    using ne sorted by (simp add: selectBestMatch_def)
  have bin: "b \<in> set statuses" "status b = Success" using best succ_set by auto
  have least: "\<forall>s\<in>set statuses. status s = Success \<longrightarrow> better h b s"
    using best succ_set by auto
  have "find (\<lambda>s. status s = Success \<and> tied h b s) statuses
        = find (\<lambda>s. status s = Success \<and> tied h b s) ?succ"
    using wf by (intro find_filter_eq [symmetric]) auto
  also have "\<dots> = find (tied h b) ?succ"
    by (intro find_cong) (auto simp: hasBooking_def)
  finally have f: "find (\<lambda>s. status s = Success \<and> tied h b s) statuses = Some b"
    using best by simp
  show ?thesis using sel bin least f by blast
qed

lemma runBatches_aborted: "aborted st \<Longrightarrow> runBatches h rc slot desc st fs bs = st"
  by (cases bs) auto

lemma demo_duplicate_run:
  "map_option (\<lambda>(res, st'). (length (successfulBookings res), length (failedCalls res),
                               length (cancelledCalls res), totalProviders res))
     (executeSwarm demoHost demoRaces (newOrchestrator DEFAULT_CONFIG)
        [demoDirectory ! 0, demoDirectory ! 0] demoSlot None) = Some (1, 0, 0, 2)"
  by code_simp

lemma demo_undefined_run:
  "map_option (\<lambda>(res, st'). (map status (callStatuses res), length (successfulBookings res),
                               length (failedCalls res), length (cancelledCalls res),
                               totalProviders res, notified st'))
     (executeSwarm demoHost demoRaces
        (newOrchestrator (DEFAULT_CONFIG\<lparr>maxConcurrentCalls := None\<rparr>)) demoProviders demoSlot None)
   = Some ([Pending, Pending, Pending, Pending], 0, 0, 0, 4, [])"
  by code_simp

lemma demo_distinct: "distinct (map id_p demoProviders)"
  by code_simp

lemma demo_tie_run:
  "map_option (\<lambda>(res, st').
       (list_ex (\<lambda>s. status s = Success) (callStatuses res),
        list_all (\<lambda>s. status s = Success \<longrightarrow> hasBooking s \<and> bookedTime demoHost s \<noteq> None)
           (callStatuses res),
        map (\<lambda>s. (st_providerId s, bookedTime demoHost s)) (callStatuses res),
        map_option st_providerId (bestMatch res)))
     (executeSwarm demoHost demoRaces (newOrchestrator DEFAULT_CONFIG)
        [demoDirectory ! 3, demoDirectory ! 0] demoSlot None)
   = Some (True, True, [(''prov_004'', Some 1770735600000), (''prov_001'', Some 1770735600000)],
           Some ''prov_001'')"
  by code_simp

lemma demo_ratings:
  "ratingOrZero demoHost ''prov_004'' < ratingOrZero demoHost ''prov_001''"
  by code_simp

subsection \<open>The partition of the statuses\<close>

text \<open>
  Claim C5 says that the lengths of \<open>successfulBookings\<close>, \<open>failedCalls\<close> and
  \<open>cancelledCalls\<close> add up to \<open>totalProviders\<close> for every result of \<open>executeSwarm\<close>, and that
  no status remains \<open>pending\<close>. The first does not hold for every list of providers: the
  statuses are kept in a map keyed by provider id while \<open>totalProviders\<close> is the length of
  the list, so for a list that names the same provider twice there is one status and
  \<open>totalProviders\<close> is 2.
\<close>

theorem duplicate_ids_break_partition:
  "executeSwarm demoHost demoRaces (newOrchestrator DEFAULT_CONFIG)
        [demoDirectory ! 0, demoDirectory ! 0] demoSlot None \<noteq> None
   \<and> length (successfulBookings (fst (the (executeSwarm demoHost demoRaces
          (newOrchestrator DEFAULT_CONFIG) [demoDirectory ! 0, demoDirectory ! 0] demoSlot None))))
     + length (failedCalls (fst (the (executeSwarm demoHost demoRaces
          (newOrchestrator DEFAULT_CONFIG) [demoDirectory ! 0, demoDirectory ! 0] demoSlot None))))
     + length (cancelledCalls (fst (the (executeSwarm demoHost demoRaces
          (newOrchestrator DEFAULT_CONFIG) [demoDirectory ! 0, demoDirectory ! 0] demoSlot None))))
     \<noteq> totalProviders (fst (the (executeSwarm demoHost demoRaces
          (newOrchestrator DEFAULT_CONFIG) [demoDirectory ! 0, demoDirectory ! 0] demoSlot None)))"
  using demo_duplicate_run by (auto simp: map_option_case split: option.splits)

text \<open>
  Claim C5 does not hold either when the configuration's \<open>maxConcurrentCalls\<close> is \<open>undefined\<close>
  (the constructor was given \<open>{maxConcurrentCalls: undefined}\<close>) or \<open>NaN\<close>: the only batch
  is empty, \<open>executeSwarm\<close> returns without a call, and every status is still \<open>pending\<close>.
  Here the four example providers have distinct ids.
\<close>

theorem undefined_batch_size_leaves_pending:
  "distinct (map id_p demoProviders)
   \<and> executeSwarm demoHost demoRaces
        (newOrchestrator (DEFAULT_CONFIG\<lparr>maxConcurrentCalls := None\<rparr>)) demoProviders demoSlot None
        \<noteq> None
   \<and> map status (callStatuses (fst (the (executeSwarm demoHost demoRaces
          (newOrchestrator (DEFAULT_CONFIG\<lparr>maxConcurrentCalls := None\<rparr>)) demoProviders demoSlot None))))
       = [Pending, Pending, Pending, Pending]
   \<and> length (successfulBookings (fst (the (executeSwarm demoHost demoRaces
          (newOrchestrator (DEFAULT_CONFIG\<lparr>maxConcurrentCalls := None\<rparr>)) demoProviders demoSlot None))))
     + length (failedCalls (fst (the (executeSwarm demoHost demoRaces
          (newOrchestrator (DEFAULT_CONFIG\<lparr>maxConcurrentCalls := None\<rparr>)) demoProviders demoSlot None))))
     + length (cancelledCalls (fst (the (executeSwarm demoHost demoRaces
          (newOrchestrator (DEFAULT_CONFIG\<lparr>maxConcurrentCalls := None\<rparr>)) demoProviders demoSlot None))))
     \<noteq> totalProviders (fst (the (executeSwarm demoHost demoRaces
          (newOrchestrator (DEFAULT_CONFIG\<lparr>maxConcurrentCalls := None\<rparr>)) demoProviders demoSlot None)))"
  using demo_undefined_run demo_distinct by (auto simp: map_option_case split: option.splits)

text \<open>
  Claim C5 as the code has it. For every result that \<open>executeSwarm\<close> returns,
  \<open>totalProviders\<close> is the length of the input, no status is \<open>calling\<close>, every status is in
  exactly one of the three partitions or \<open>pending\<close>, and the three partitions and the
  \<open>pending\<close> statuses together are as many as there are different provider ids in the
  input. When \<open>maxConcurrentCalls\<close> is a positive integer \<open>n\<close> (with \<open>n\<close> plus the number of
  providers at most \<open>2^53\<close>, so that the loop index is exact) or \<open>Infinity\<close>, \<open>executeSwarm\<close>
  returns, no status is left \<open>pending\<close>, the three lengths add up to the number of
  different ids, and so to \<open>totalProviders\<close> when the ids of the providers are pairwise
  distinct.
\<close>

theorem swarm_partition:
  "(\<forall>res st'. executeSwarm h rc orch providers slot desc = Some (res, st') \<longrightarrow>
       totalProviders res = length providers
       \<and> (\<forall>s\<in>set (callStatuses res). status s \<noteq> Calling)
       \<and> length (successfulBookings res) + length (failedCalls res) + length (cancelledCalls res)
           + length (filter (\<lambda>s. status s = Pending) (callStatuses res))
           = card (id_p ` set providers))
   \<and> ((\<exists>n. 0 < n \<and> int (length providers) + n \<le> 2 ^ 53
            \<and> maxConcurrentCalls (config orch) = Some (Num (of_int n)))
        \<or> maxConcurrentCalls (config orch) = Some PosInf \<longrightarrow>
       (\<exists>res st'. executeSwarm h rc orch providers slot desc = Some (res, st')
          \<and> (\<forall>s\<in>set (callStatuses res). status s \<noteq> Pending \<and> status s \<noteq> Calling)
          \<and> length (successfulBookings res) + length (failedCalls res) + length (cancelledCalls res)
              = card (id_p ` set providers)
          \<and> (distinct (map id_p providers) \<longrightarrow>
               length (successfulBookings res) + length (failedCalls res)
                 + length (cancelledCalls res) = totalProviders res)))"
proof (intro conjI allI impI)
  fix res st'
  assume ex: "executeSwarm h rc orch providers slot desc = Some (res, st')"
  note f = executeSwarm_final [OF ex]
  have "distinct (keys st')" using f(1) by (simp add: wf_map_def keys_def)
  then have "length (keys st') = card (set (keys st'))" by (simp add: distinct_card)
  then have len: "length (callStatuses res) = card (id_p ` set providers)"
    using f(2,3) by (simp add: keys_def)
  show "totalProviders res = length providers" by (rule f(6))
  show "\<forall>s\<in>set (callStatuses res). status s \<noteq> Calling" by (rule f(5))
  show "length (successfulBookings res) + length (failedCalls res) + length (cancelledCalls res)
           + length (filter (\<lambda>s. status s = Pending) (callStatuses res))
           = card (id_p ` set providers)"
    using partition4 [OF f(5)] len by (simp add: f(7,8,9))
next
  let ?items = "zip [0..<length providers] providers"
  assume good: "(\<exists>n. 0 < n \<and> int (length providers) + n \<le> 2 ^ 53
            \<and> maxConcurrentCalls (config orch) = Some (Num (of_int n)))
        \<or> maxConcurrentCalls (config orch) = Some PosInf"
  have "\<exists>bs. createBatches ?items (maxConcurrentCalls (config orch)) = Some bs \<and> concat bs = ?items"
  proof (cases "maxConcurrentCalls (config orch) = Some PosInf")
    case True
    then show ?thesis by (simp add: createBatches_PosInf)
  next
    case False
    then obtain n where n: "0 < n" "int (length providers) + n \<le> 2 ^ 53"
      "maxConcurrentCalls (config orch) = Some (Num (of_int n))"
      using good by blast
    have l: "int (length ?items) + n \<le> 2 ^ 53" using n(2) by simp
    show ?thesis using createBatches_integer [OF n(1) l] n(3) by simp
  qed
  then obtain bs where cb: "createBatches ?items (maxConcurrentCalls (config orch)) = Some bs"
    and cc: "concat bs = ?items"
    by blast
  have c: "config (initStatuses (orch\<lparr>aborted := False, statusMap := []\<rparr>) providers) = config orch"
    using initStatuses_props(5) [of "orch\<lparr>aborted := False, statusMap := []\<rparr>" providers] by simp
  have "executeSwarm h rc orch providers slot desc \<noteq> None"
    using cb by (simp add: executeSwarm_def Let_def c)
  then obtain res st' where ex: "executeSwarm h rc orch providers slot desc = Some (res, st')"
    by (cases "executeSwarm h rc orch providers slot desc") auto
  note f = executeSwarm_final [OF ex]
  note np = executeSwarm_complete [OF ex cb cc]
  have all: "\<forall>s\<in>set (callStatuses res). status s \<noteq> Pending \<and> status s \<noteq> Calling"
    using np f(5) by blast
  have "distinct (keys st')" using f(1) by (simp add: wf_map_def keys_def)
  then have "length (keys st') = card (set (keys st'))" by (simp add: distinct_card)
  then have len: "length (callStatuses res) = card (id_p ` set providers)"
    using f(2,3) by (simp add: keys_def)
  have sum: "length (successfulBookings res) + length (failedCalls res) + length (cancelledCalls res)
           = card (id_p ` set providers)"
    using partition3 [OF all] len by (simp add: f(7,8,9))
  have tot: "length (successfulBookings res) + length (failedCalls res)
                + length (cancelledCalls res) = totalProviders res"
    if d: "distinct (map id_p providers)"
  proof -
    have "card (id_p ` set providers) = length providers"
      using d by (metis distinct_card length_map set_map)
    then show ?thesis using sum f(6) by simp
  qed
  show "\<exists>res st'. executeSwarm h rc orch providers slot desc = Some (res, st')
          \<and> (\<forall>s\<in>set (callStatuses res). status s \<noteq> Pending \<and> status s \<noteq> Calling)
          \<and> length (successfulBookings res) + length (failedCalls res) + length (cancelledCalls res)
              = card (id_p ` set providers)
          \<and> (distinct (map id_p providers) \<longrightarrow>
               length (successfulBookings res) + length (failedCalls res)
                 + length (cancelledCalls res) = totalProviders res)"
    using ex all sum tot by blast
qed

theorem swarm_partition_witness:
  "0 < (2::int) \<and> int (length demoProviders) + 2 \<le> 2 ^ 53
   \<and> maxConcurrentCalls (config demoOrch2) = Some (Num (of_int 2))
   \<and> distinct (map id_p demoProviders)
   \<and> (\<exists>res st'. executeSwarm demoHost demoRaces demoOrch2 demoProviders demoSlot None = Some (res, st')
         \<and> (\<forall>s\<in>set (callStatuses res). status s \<noteq> Pending \<and> status s \<noteq> Calling)
         \<and> length (successfulBookings res) + length (failedCalls res) + length (cancelledCalls res)
             = totalProviders res
         \<and> totalProviders res = 4)"
proof -
  have n: "0 < (2::int)" "int (length demoProviders) + 2 \<le> 2 ^ 53"
    by (simp_all add: demoProviders_def)
  have m: "maxConcurrentCalls (config demoOrch2) = Some (Num (of_int 2))"
    by (simp add: demoOrch2_def newOrchestrator_def)
  note d = demo_distinct
  note p = swarm_partition [of demoHost demoRaces demoOrch2 demoProviders demoSlot None]
  have g: "\<exists>n. 0 < n \<and> int (length demoProviders) + n \<le> 2 ^ 53
            \<and> maxConcurrentCalls (config demoOrch2) = Some (Num (of_int n))"
    using n m by blast
  obtain res st' where e: "executeSwarm demoHost demoRaces demoOrch2 demoProviders demoSlot None = Some (res, st')"
    and a: "\<forall>s\<in>set (callStatuses res). status s \<noteq> Pending \<and> status s \<noteq> Calling"
    and t: "length (successfulBookings res) + length (failedCalls res) + length (cancelledCalls res)
             = totalProviders res"
    using p g d by blast
  have "totalProviders res = length demoProviders" using p e by blast
  then have "totalProviders res = 4" by (simp add: demoProviders_def)
  then show ?thesis using n m d e a t by blast
qed

subsection \<open>The best match\<close>

lemma updateStatus_resultsOk:
  assumes "wf_map (statusMap st)" "map_of (statusMap st) k = Some s0" "st_providerId s = k"
      and "resultsOk h slot desc st" "fromCall h slot desc s"
  shows "resultsOk h slot desc (updateStatus st s)"
  using assms updateStatus_props(3) [OF assms(1,2,3)]
  by (auto simp: resultsOk_def)

lemma launch_resultsOk:
  assumes "wf_map (statusMap st)" "resultsOk h slot desc st"
  shows "resultsOk h slot desc (launch st p)"
proof (cases "map_of (statusMap st) (id_p p)")
  case None
  then show ?thesis using assms by (simp add: launch_def)
next
  case (Some s)
  have id: "st_providerId (s\<lparr>status := Calling\<rparr>) = id_p p"
    using assms Some by (simp add: wf_map_lookup)
  have "fromCall h slot desc (s\<lparr>status := Calling\<rparr>)" by (simp add: fromCall_def)
  then show ?thesis
    using Some updateStatus_resultsOk [OF assms(1) Some id assms(2)] by (simp add: launch_def)
qed

lemma settle_resultsOk:
  assumes "wf_map (statusMap st)" "resultsOk h slot desc st"
  shows "resultsOk h slot desc (settle h rc slot desc st ip)"
proof (cases "map_of (statusMap st) (id_p (snd ip))")
  case None
  then show ?thesis using assms by (simp add: settle_def)
next
  case (Some s)
  have id: "st_providerId s = id_p (snd ip)" using assms Some by (simp add: wf_map_lookup)
  let ?r = "simulateProviderCall h (random rc (fst ip)) (id_p (snd ip)) slot desc"
  show ?thesis
  proof (cases "timerWins rc (fst ip)")
    case True
    have "fromCall h slot desc (s\<lparr>status := Timeout\<rparr>)" by (simp add: fromCall_def)
    then show ?thesis
      using Some True id updateStatus_resultsOk [OF assms(1) Some _ assms(2), of "s\<lparr>status := Timeout\<rparr>"]
      by (simp add: settle_def)
  next
    case False
    let ?s' = "s\<lparr>status := (if success ?r then Success else Failed), result := Some ?r\<rparr>"
    have "fromCall h slot desc ?s'" using id by (auto simp: fromCall_def)
    then show ?thesis
      using Some False id updateStatus_resultsOk [OF assms(1) Some _ assms(2), of ?s']
      by (simp add: settle_def Let_def)
  qed
qed

lemma foldl_launch_resultsOk:
  "wf_map (statusMap st) \<Longrightarrow> resultsOk h slot desc st \<Longrightarrow> resultsOk h slot desc (foldl launch st ps)"
proof (induction ps arbitrary: st)
  case Nil
  then show ?case by simp
next
  case (Cons p ps)
  note l = launch_props [OF Cons.prems(1), where p=p]
  show ?case using Cons.IH [OF l(1) launch_resultsOk [OF Cons.prems]] by simp
qed

lemma foldl_settle_resultsOk:
  "wf_map (statusMap st) \<Longrightarrow> resultsOk h slot desc st
     \<Longrightarrow> resultsOk h slot desc (foldl (settle h rc slot desc) st ips)"
proof (induction ips arbitrary: st)
  case Nil
  then show ?case by simp
next
  case (Cons ip ips)
  note s = settle_props [OF Cons.prems(1), where h=h and rc=rc and slot=slot and desc=desc and ip=ip]
  show ?case using Cons.IH [OF s(1) settle_resultsOk [OF Cons.prems]] by simp
qed

lemma executeBatch_resultsOk:
  assumes "wf_map (statusMap st)" "resultsOk h slot desc st"
  shows "resultsOk h slot desc (executeBatch h rc slot desc st batch)"
proof -
  note l = foldl_launch_props [OF assms(1), where ps="map snd batch"]
  have wf1: "wf_map (statusMap (foldl launch st (map snd batch)))" using l by simp
  show ?thesis
    unfolding executeBatch_def Let_def
    by (rule foldl_settle_resultsOk [OF wf1 foldl_launch_resultsOk [OF assms]])
qed

lemma cancel_resultsOk:
  assumes "wf_map (statusMap st)" "resultsOk h slot desc st"
  shows "resultsOk h slot desc (cancelRemainingCalls st)"
proof -
  have "fromCall h slot desc (cancelled_of s)" if "fromCall h slot desc s" for s
    using that by (auto simp: fromCall_def cancelled_of_def)
  then show ?thesis
    using assms(2) cancelRemainingCalls_props(5) [OF assms(1)]
    by (auto simp: resultsOk_def)
qed

lemma runBatches_resultsOk:
  "wf_map (statusMap st) \<Longrightarrow> resultsOk h slot desc st
     \<Longrightarrow> resultsOk h slot desc (runBatches h rc slot desc st fs bs)"
proof (induction bs arbitrary: st fs)
  case Nil
  then show ?case by simp
next
  case (Cons batch rest)
  let ?st1 = "executeBatch h rc slot desc st batch"
  let ?ck = "checkResults ?st1 fs (map snd batch)"
  note e = executeBatch_props [OF Cons.prems(1), where h=h and rc=rc and slot=slot and desc=desc and batch=batch]
  have wf1: "wf_map (statusMap ?st1)" using e by simp
  have ok1: "resultsOk h slot desc ?st1" by (rule executeBatch_resultsOk [OF Cons.prems])
  have "wf_map (statusMap (fst ?ck)) \<and> resultsOk h slot desc (fst ?ck)"
    using checkResults_cases [of ?st1 fs "map snd batch"] wf1 ok1
      cancelRemainingCalls_props(1) [OF wf1] cancel_resultsOk [OF wf1 ok1]
    by auto
  then have "resultsOk h slot desc (runBatches h rc slot desc (fst ?ck) (snd ?ck) rest)"
    by (intro Cons.IH) simp_all
  then show ?case using Cons.prems by (simp add: Let_def)
qed

lemma withinFlex_valid: "withinFlex a b \<Longrightarrow> a \<noteq> None"
  by (simp add: withinFlex_def split: option.splits)

lemma success_bookedSlot:
  assumes "success (simulateProviderCall h rnd pid slot desc)"
  shows "\<exists>provider s. getProvider h pid = Some provider \<and> s \<in> set (availableSlots provider)
           \<and> getTime h s \<noteq> None
           \<and> bookedSlot (simulateProviderCall h rnd pid slot desc) = Some (js_replace s ''Z'' [])"
proof (cases "getProvider h pid")
  case None
  then show ?thesis using assms by (simp add: simulateProviderCall_def Let_def)
next
  case (Some provider)
  have "success (simulateProviderCall h rnd pid slot desc) \<longrightarrow>
         (\<exists>s. s \<in> set (availableSlots provider)
           \<and> withinFlex (getTime h s) (getTime h slot)
           \<and> bookedSlot (simulateProviderCall h rnd pid slot desc) = Some (js_replace s ''Z'' []))"
    using Some
    by (auto simp: simulateProviderCall_def Let_def
             split: option.splits list.splits if_splits dest!: find_SomeD)
  then show ?thesis using assms Some withinFlex_valid by blast
qed

lemma initStatuses_resultsOk:
  assumes "statusMap st = []"
  shows "resultsOk h slot desc (initStatuses st providers)"
proof -
  have eq: "initStatuses st providers = foldl initStep st providers"
    by (simp add: initStatuses_def initStep_def [abs_def])
  have wf0: "wf_map (statusMap st)" using assms(1) by (simp add: wf_map_def)
  have p0: "\<forall>kv\<in>set (statusMap st). status (snd kv) = Pending" using assms(1) by simp
  note f = init_fold [OF wf0 p0, of providers]
  show ?thesis
    unfolding resultsOk_def
  proof (intro allI impI)
    fix k s assume "map_of (statusMap (initStatuses st providers)) k = Some s"
    then have "(k, s) \<in> set (statusMap (initStatuses st providers))" by (rule map_of_SomeD)
    then have "status s = Pending" using f by (auto simp: eq)
    then show "fromCall h slot desc s" by (simp add: fromCall_def)
  qed
qed

lemma executeSwarm_resultsOk:
  assumes "executeSwarm h rc orch providers slot desc = Some (res, st')"
      and "s \<in> set (callStatuses res)"
  shows "fromCall h slot desc s \<and> st_providerId s \<in> id_p ` set providers"
proof -
  let ?orch0 = "orch\<lparr>aborted := False, statusMap := []\<rparr>"
  let ?st0 = "initStatuses ?orch0 providers"
  have e0: "statusMap ?orch0 = []" by simp
  note i = initStatuses_props [OF e0, of providers]
  obtain batches where cb: "createBatches (zip [0..<length providers] providers)
                              (maxConcurrentCalls (config ?st0)) = Some batches"
    using assms(1) by (auto simp: executeSwarm_def Let_def split: option.splits)
  have st': "st' = runBatches h rc slot desc ?st0 None batches"
    using assms(1) cb by (auto simp: executeSwarm_def Let_def)
  have ok: "resultsOk h slot desc st'"
    unfolding st' by (rule runBatches_resultsOk [OF i(1) initStatuses_resultsOk [OF e0]])
  note f = executeSwarm_final [OF assms(1)]
  obtain k where k: "(k, s) \<in> set (statusMap st')" using assms(2) f(2) by auto
  then have look: "map_of (statusMap st') k = Some s" using f(1) by (simp add: wf_map_mem)
  have "k \<in> set (keys st')" using k by (auto simp: keys_def intro: rev_image_eqI)
  moreover have "st_providerId s = k" using f(1) look by (rule wf_map_lookup)
  ultimately show ?thesis using ok look f(3) by (auto simp: resultsOk_def)
qed

lemma bestMatch_hyp:
  assumes "executeSwarm h rc orch providers slot desc = Some (res, st')"
      and "\<forall>p\<in>set providers. \<forall>prov. getProvider h (id_p p) = Some prov \<longrightarrow>
             (\<forall>s\<in>set (availableSlots prov). getTime h s \<noteq> None \<longrightarrow>
                js_replace s ''Z'' [] \<noteq> [] \<and> getTime h (js_replace s ''Z'' []) \<noteq> None)"
  shows "\<forall>s\<in>set (callStatuses res). status s = Success \<longrightarrow> hasBooking s \<and> bookedTime h s \<noteq> None"
proof (intro ballI impI)
  fix s assume s: "s \<in> set (callStatuses res)" and su: "status s = Success"
  note r = executeSwarm_resultsOk [OF assms(1) s]
  obtain rnd where res: "result s = Some (simulateProviderCall h rnd (st_providerId s) slot desc)"
    and ok: "success (simulateProviderCall h rnd (st_providerId s) slot desc)"
    using r su by (auto simp: fromCall_def)
  obtain prov sl where p: "getProvider h (st_providerId s) = Some prov"
    and sl: "sl \<in> set (availableSlots prov)" "getTime h sl \<noteq> None"
    and b: "bookedSlot (simulateProviderCall h rnd (st_providerId s) slot desc)
              = Some (js_replace sl ''Z'' [])"
    using success_bookedSlot [OF ok] by blast
  obtain q where q: "q \<in> set providers" "st_providerId s = id_p q" using r by auto
  have "js_replace sl ''Z'' [] \<noteq> [] \<and> getTime h (js_replace sl ''Z'' []) \<noteq> None"
    using assms(2) q p sl by auto
  then show "hasBooking s \<and> bookedTime h s \<noteq> None"
    using su res b by (simp add: hasBooking_def bookedTime_def)
qed

lemma bestMatch_wellformed:
  assumes "executeSwarm h rc orch providers slot desc = Some (res, st')"
      and "\<forall>s\<in>set (callStatuses res). status s = Success \<longrightarrow> hasBooking s \<and> bookedTime h s \<noteq> None"
  shows "((\<exists>s\<in>set (callStatuses res). status s = Success) \<longrightarrow>
           (\<exists>b tb. bestMatch res = Some b \<and> b \<in> set (callStatuses res) \<and> status b = Success
              \<and> bookedTime h b = Some tb
              \<and> (\<forall>s\<in>set (callStatuses res). status s = Success \<longrightarrow>
                    (\<exists>ts. bookedTime h s = Some ts \<and> tb \<le> ts
                       \<and> (ts = tb \<longrightarrow> ratingOrZero h (st_providerId s)
                                          \<le> ratingOrZero h (st_providerId b))))
              \<and> find (\<lambda>s. status s = Success \<and> bookedTime h s = Some tb
                          \<and> ratingOrZero h (st_providerId s) = ratingOrZero h (st_providerId b))
                   (callStatuses res) = Some b))
       \<and> ((\<forall>s\<in>set (callStatuses res). status s \<noteq> Success) \<longrightarrow> bestMatch res = None)
       \<and> (distinct (map id_p providers) \<longrightarrow>
            map st_providerId (callStatuses res) = map id_p providers)"
proof (intro conjI impI)
  note f = executeSwarm_final [OF assms(1)]
  {
    assume ex: "\<exists>s\<in>set (callStatuses res). status s = Success"
    obtain b where b: "selectBestMatch h (callStatuses res) = Some b" "b \<in> set (callStatuses res)"
        "status b = Success"
        "\<forall>s\<in>set (callStatuses res). status s = Success \<longrightarrow> better h b s"
        "find (\<lambda>s. status s = Success \<and> tied h b s) (callStatuses res) = Some b"
      using selectBestMatch_best [OF assms(2) ex] by blast
    obtain tb where tb: "bookedTime h b = Some tb" using assms(2) b(2,3) by blast
    have least: "\<forall>s\<in>set (callStatuses res). status s = Success \<longrightarrow>
                    (\<exists>ts. bookedTime h s = Some ts \<and> tb \<le> ts
                       \<and> (ts = tb \<longrightarrow> ratingOrZero h (st_providerId s)
                                          \<le> ratingOrZero h (st_providerId b)))"
      using b(4) tb by (auto simp: better_def)
    have "(\<lambda>s. status s = Success \<and> tied h b s)
          = (\<lambda>s. status s = Success \<and> bookedTime h s = Some tb
                          \<and> ratingOrZero h (st_providerId s) = ratingOrZero h (st_providerId b))"
      using tb by (auto simp: tied_def)
    then have fnd: "find (\<lambda>s. status s = Success \<and> bookedTime h s = Some tb
                          \<and> ratingOrZero h (st_providerId s) = ratingOrZero h (st_providerId b))
                   (callStatuses res) = Some b"
      using b(5) by simp
    show "\<exists>b tb. bestMatch res = Some b \<and> b \<in> set (callStatuses res) \<and> status b = Success
              \<and> bookedTime h b = Some tb
              \<and> (\<forall>s\<in>set (callStatuses res). status s = Success \<longrightarrow>
                    (\<exists>ts. bookedTime h s = Some ts \<and> tb \<le> ts
                       \<and> (ts = tb \<longrightarrow> ratingOrZero h (st_providerId s)
                                          \<le> ratingOrZero h (st_providerId b))))
              \<and> find (\<lambda>s. status s = Success \<and> bookedTime h s = Some tb
                          \<and> ratingOrZero h (st_providerId s) = ratingOrZero h (st_providerId b))
                   (callStatuses res) = Some b"
      using b(1,2,3) tb least fnd f(10) by auto
  }
  {
    assume "\<forall>s\<in>set (callStatuses res). status s \<noteq> Success"
    then show "bestMatch res = None" using f(10) by (simp add: selectBestMatch_None)
  }
  {
    assume d: "distinct (map id_p providers)"
    have a: "map st_providerId (map snd (statusMap st')) = map fst (statusMap st')"
      using f(1) by (auto simp: wf_map_def list_all_iff)
    have b: "map fst (statusMap st') = map id_p providers"
      using f(4) [OF d] by (simp add: keys_def)
    show "map st_providerId (callStatuses res) = map id_p providers"
      by (simp only: f(2) a b)
  }
qed

lemma demo_tie_slots:
  "getProvider demoHost (id_p (demoDirectory ! 3)) = Some (demoDirectory ! 3)
   \<and> getProvider demoHost (id_p (demoDirectory ! 0)) = Some (demoDirectory ! 0)
   \<and> list_all (\<lambda>s. getTime demoHost s \<noteq> None \<longrightarrow>
                  js_replace s ''Z'' [] \<noteq> [] \<and> getTime demoHost (js_replace s ''Z'' []) \<noteq> None)
        (availableSlots (demoDirectory ! 3) @ availableSlots (demoDirectory ! 0))"
  by code_simp

text \<open>
  Claim C4: take a result of \<open>executeSwarm\<close> in a host where every slot of the providers
  called that is a valid date is still a valid date, and not the empty string, without
  its first \<open>Z\<close> (the booked slot of a successful negotiation is such a slot without its
  \<open>Z\<close>). If some status is \<open>success\<close> then \<open>bestMatch\<close> is a \<open>success\<close> status whose booked
  time is the earliest of all \<open>success\<close> statuses; among those with that time its
  provider's rating is the highest; and among those with that time and that rating it is
  the first in the order of the statuses, which is the input order of the providers when
  their ids are distinct. If no status is \<open>success\<close>, \<open>bestMatch\<close> is \<open>null\<close>.
\<close>

theorem bestMatch_selection:
  assumes "executeSwarm h rc orch providers slot desc = Some (res, st')"
      and "\<forall>p\<in>set providers. \<forall>prov. getProvider h (id_p p) = Some prov \<longrightarrow>
             (\<forall>s\<in>set (availableSlots prov). getTime h s \<noteq> None \<longrightarrow>
                js_replace s ''Z'' [] \<noteq> [] \<and> getTime h (js_replace s ''Z'' []) \<noteq> None)"
  shows "((\<exists>s\<in>set (callStatuses res). status s = Success) \<longrightarrow>
           (\<exists>b tb. bestMatch res = Some b \<and> b \<in> set (callStatuses res) \<and> status b = Success
              \<and> bookedTime h b = Some tb
              \<and> (\<forall>s\<in>set (callStatuses res). status s = Success \<longrightarrow>
                    (\<exists>ts. bookedTime h s = Some ts \<and> tb \<le> ts
                       \<and> (ts = tb \<longrightarrow> ratingOrZero h (st_providerId s)
                                          \<le> ratingOrZero h (st_providerId b))))
              \<and> find (\<lambda>s. status s = Success \<and> bookedTime h s = Some tb
                          \<and> ratingOrZero h (st_providerId s) = ratingOrZero h (st_providerId b))
                   (callStatuses res) = Some b))
       \<and> ((\<forall>s\<in>set (callStatuses res). status s \<noteq> Success) \<longrightarrow> bestMatch res = None)
       \<and> (distinct (map id_p providers) \<longrightarrow>
            map st_providerId (callStatuses res) = map id_p providers)"
  by (rule bestMatch_wellformed [OF assms(1) bestMatch_hyp [OF assms]])

theorem bestMatch_selection_witness:
  "getProvider demoHost (id_p (demoDirectory ! 3)) = Some (demoDirectory ! 3)
   \<and> getProvider demoHost (id_p (demoDirectory ! 0)) = Some (demoDirectory ! 0)
   \<and> list_all (\<lambda>s. getTime demoHost s \<noteq> None \<longrightarrow>
                  js_replace s ''Z'' [] \<noteq> [] \<and> getTime demoHost (js_replace s ''Z'' []) \<noteq> None)
        (availableSlots (demoDirectory ! 3) @ availableSlots (demoDirectory ! 0))
   \<and> (\<exists>res st'. executeSwarm demoHost demoRaces (newOrchestrator DEFAULT_CONFIG)
        [demoDirectory ! 3, demoDirectory ! 0] demoSlot None = Some (res, st')
     \<and> (\<exists>s\<in>set (callStatuses res). status s = Success)
     \<and> map (\<lambda>s. (st_providerId s, bookedTime demoHost s)) (callStatuses res)
          = [(''prov_004'', Some 1770735600000), (''prov_001'', Some 1770735600000)]
     \<and> ratingOrZero demoHost ''prov_004'' < ratingOrZero demoHost ''prov_001''
     \<and> map_option st_providerId (bestMatch res) = Some ''prov_001''
     \<and> (\<exists>b tb. bestMatch res = Some b \<and> b \<in> set (callStatuses res) \<and> status b = Success
              \<and> bookedTime demoHost b = Some tb
              \<and> (\<forall>s\<in>set (callStatuses res). status s = Success \<longrightarrow>
                    (\<exists>ts. bookedTime demoHost s = Some ts \<and> tb \<le> ts
                       \<and> (ts = tb \<longrightarrow> ratingOrZero demoHost (st_providerId s)
                                          \<le> ratingOrZero demoHost (st_providerId b))))))"
proof -
  have hyp: "\<forall>p\<in>set [demoDirectory ! 3, demoDirectory ! 0]. \<forall>prov.
       getProvider demoHost (id_p p) = Some prov \<longrightarrow>
         (\<forall>s\<in>set (availableSlots prov). getTime demoHost s \<noteq> None \<longrightarrow>
            js_replace s ''Z'' [] \<noteq> [] \<and> getTime demoHost (js_replace s ''Z'' []) \<noteq> None)"
    using demo_tie_slots by (auto simp: list_all_iff)
  obtain res st' where e: "executeSwarm demoHost demoRaces (newOrchestrator DEFAULT_CONFIG)
        [demoDirectory ! 3, demoDirectory ! 0] demoSlot None = Some (res, st')"
    and ex: "list_ex (\<lambda>s. status s = Success) (callStatuses res)"
    and ts: "map (\<lambda>s. (st_providerId s, bookedTime demoHost s)) (callStatuses res)
          = [(''prov_004'', Some 1770735600000), (''prov_001'', Some 1770735600000)]"
    and bm: "map_option st_providerId (bestMatch res) = Some ''prov_001''"
    using demo_tie_run by (auto simp: map_option_case split: option.splits)
  have ex': "\<exists>s\<in>set (callStatuses res). status s = Success"
    using ex by (simp add: list_ex_iff)
  note t = bestMatch_selection [OF e hyp]
  have best: "\<exists>b tb. bestMatch res = Some b \<and> b \<in> set (callStatuses res) \<and> status b = Success
              \<and> bookedTime demoHost b = Some tb
              \<and> (\<forall>s\<in>set (callStatuses res). status s = Success \<longrightarrow>
                    (\<exists>ts. bookedTime demoHost s = Some ts \<and> tb \<le> ts
                       \<and> (ts = tb \<longrightarrow> ratingOrZero demoHost (st_providerId s)
                                          \<le> ratingOrZero demoHost (st_providerId b))))"
    using t ex' by blast
  have sl: "getProvider demoHost (id_p (demoDirectory ! 3)) = Some (demoDirectory ! 3)"
    "getProvider demoHost (id_p (demoDirectory ! 0)) = Some (demoDirectory ! 0)"
    "list_all (\<lambda>s. getTime demoHost s \<noteq> None \<longrightarrow>
                  js_replace s ''Z'' [] \<noteq> [] \<and> getTime demoHost (js_replace s ''Z'' []) \<noteq> None)
        (availableSlots (demoDirectory ! 3) @ availableSlots (demoDirectory ! 0))"
    using demo_tie_slots by blast+
  show ?thesis
    by (intro conjI sl exI [of _ res] exI [of _ st'] e ex' ts bm demo_ratings best)
qed

subsection \<open>Stopping on the first success\<close>

lemma launch_notified:
  assumes "wf_map (statusMap st)"
  shows "\<exists>ns. notified (launch st p) = notified st @ ns \<and> (\<forall>s\<in>set ns. st_providerId s = id_p p)"
proof (cases "map_of (statusMap st) (id_p p)")
  case None
  then show ?thesis by (simp add: launch_def)
next
  case (Some s)
  have id: "st_providerId (s\<lparr>status := Calling\<rparr>) = id_p p"
    using assms Some by (simp add: wf_map_lookup)
  show ?thesis
    using Some id updateStatus_props(6) [OF assms Some id] by (simp add: launch_def)
qed

lemma settle_notified:
  assumes "wf_map (statusMap st)"
  shows "\<exists>ns. notified (settle h rc slot desc st ip) = notified st @ ns
           \<and> (\<forall>s\<in>set ns. st_providerId s = id_p (snd ip))"
proof (cases "map_of (statusMap st) (id_p (snd ip))")
  case None
  then show ?thesis by (simp add: settle_def)
next
  case (Some s)
  have id: "st_providerId s = id_p (snd ip)" using assms Some by (simp add: wf_map_lookup)
  show ?thesis
    using Some id
      updateStatus_props(6) [OF assms Some, of "s\<lparr>status := Timeout\<rparr>"]
      updateStatus_props(6) [OF assms Some, of "s\<lparr>status := Success, result := Some r\<rparr>" for r]
      updateStatus_props(6) [OF assms Some, of "s\<lparr>status := Failed, result := Some r\<rparr>" for r]
    by (auto simp: settle_def Let_def)
qed

lemma foldl_launch_notified:
  assumes "wf_map (statusMap st)"
  shows "\<exists>ns. notified (foldl launch st ps) = notified st @ ns
           \<and> (\<forall>s\<in>set ns. st_providerId s \<in> id_p ` set ps)"
  using assms
proof (induction ps arbitrary: st)
  case Nil
  then show ?case by simp
next
  case (Cons p ps)
  note l = launch_props [OF Cons.prems, where p=p]
  obtain n1 where n1: "notified (launch st p) = notified st @ n1" "\<forall>s\<in>set n1. st_providerId s = id_p p"
    using launch_notified [OF Cons.prems, of p] by blast
  obtain n2 where n2: "notified (foldl launch (launch st p) ps) = notified (launch st p) @ n2"
      "\<forall>s\<in>set n2. st_providerId s \<in> id_p ` set ps"
    using Cons.IH [OF l(1)] by blast
  have "notified (foldl launch st (p # ps)) = notified st @ (n1 @ n2)" using n1 n2 by simp
  moreover have "\<forall>s\<in>set (n1 @ n2). st_providerId s \<in> id_p ` set (p # ps)" using n1 n2 by auto
  ultimately show ?case by blast
qed

lemma foldl_settle_notified:
  assumes "wf_map (statusMap st)"
  shows "\<exists>ns. notified (foldl (settle h rc slot desc) st ips) = notified st @ ns
           \<and> (\<forall>s\<in>set ns. st_providerId s \<in> (id_p \<circ> snd) ` set ips)"
  using assms
proof (induction ips arbitrary: st)
  case Nil
  then show ?case by simp
next
  case (Cons ip ips)
  let ?st1 = "settle h rc slot desc st ip"
  note s = settle_props [OF Cons.prems, where h=h and rc=rc and slot=slot and desc=desc and ip=ip]
  obtain n1 where n1: "notified ?st1 = notified st @ n1" "\<forall>s\<in>set n1. st_providerId s = id_p (snd ip)"
    using settle_notified [OF Cons.prems, of h rc slot desc ip] by blast
  obtain n2 where n2: "notified (foldl (settle h rc slot desc) ?st1 ips) = notified ?st1 @ n2"
      "\<forall>s\<in>set n2. st_providerId s \<in> (id_p \<circ> snd) ` set ips"
    using Cons.IH [OF s(1)] by blast
  have "notified (foldl (settle h rc slot desc) st (ip # ips)) = notified st @ (n1 @ n2)"
    using n1 n2 by simp
  moreover have "\<forall>s\<in>set (n1 @ n2). st_providerId s \<in> (id_p \<circ> snd) ` set (ip # ips)"
    using n1 n2 by auto
  ultimately show ?case by blast
qed

lemma executeBatch_notified:
  assumes "wf_map (statusMap st)"
  shows "\<exists>ns. notified (executeBatch h rc slot desc st batch) = notified st @ ns
           \<and> (\<forall>s\<in>set ns. st_providerId s \<in> (id_p \<circ> snd) ` set batch)"
proof -
  let ?st1 = "foldl launch st (map snd batch)"
  let ?order = "filter (\<lambda>ip. \<not> timerWins rc (fst ip)) batch @ filter (\<lambda>ip. timerWins rc (fst ip)) batch"
  note l = foldl_launch_props [OF assms, where ps="map snd batch"]
  have wf1: "wf_map (statusMap ?st1)" using l by simp
  obtain n1 where n1: "notified ?st1 = notified st @ n1"
      "\<forall>s\<in>set n1. st_providerId s \<in> id_p ` set (map snd batch)"
    using foldl_launch_notified [OF assms, of "map snd batch"] by blast
  obtain n2 where n2: "notified (foldl (settle h rc slot desc) ?st1 ?order) = notified ?st1 @ n2"
      "\<forall>s\<in>set n2. st_providerId s \<in> (id_p \<circ> snd) ` set ?order"
    using foldl_settle_notified [OF wf1, of h rc slot desc ?order] by blast
  have eq: "executeBatch h rc slot desc st batch = foldl (settle h rc slot desc) ?st1 ?order"
    by (simp add: executeBatch_def Let_def)
  have "notified (executeBatch h rc slot desc st batch) = notified st @ (n1 @ n2)"
    using n1 n2 eq by simp
  moreover have "\<forall>s\<in>set (n1 @ n2). st_providerId s \<in> (id_p \<circ> snd) ` set batch"
    using n1 n2 by auto
  ultimately show ?thesis by blast
qed

lemma foldl_executeBatch_props:
  assumes "wf_map (statusMap st)"
  shows "wf_map (statusMap (foldl (executeBatch h rc slot desc) st bs))
     \<and> keys (foldl (executeBatch h rc slot desc) st bs) = keys st
     \<and> config (foldl (executeBatch h rc slot desc) st bs) = config st
     \<and> aborted (foldl (executeBatch h rc slot desc) st bs) = aborted st
     \<and> (\<exists>ns. notified (foldl (executeBatch h rc slot desc) st bs) = notified st @ ns
           \<and> (\<forall>s\<in>set ns. st_providerId s \<in> (id_p \<circ> snd) ` set (concat bs)))"
  using assms
proof (induction bs arbitrary: st)
  case Nil
  then show ?case by simp
next
  case (Cons b bs)
  let ?st1 = "executeBatch h rc slot desc st b"
  note e = executeBatch_props [OF Cons.prems, where h=h and rc=rc and slot=slot and desc=desc and batch=b]
  have wf1: "wf_map (statusMap ?st1)" using e by simp
  note IH = Cons.IH [OF wf1]
  obtain n1 where n1: "notified ?st1 = notified st @ n1"
      "\<forall>s\<in>set n1. st_providerId s \<in> (id_p \<circ> snd) ` set b"
    using executeBatch_notified [OF Cons.prems, of h rc slot desc b] by blast
  obtain n2 where n2: "notified (foldl (executeBatch h rc slot desc) ?st1 bs) = notified ?st1 @ n2"
      "\<forall>s\<in>set n2. st_providerId s \<in> (id_p \<circ> snd) ` set (concat bs)"
    using IH by blast
  have "notified (foldl (executeBatch h rc slot desc) st (b # bs)) = notified st @ (n1 @ n2)"
    using n1 n2 by simp
  moreover have "\<forall>s\<in>set (n1 @ n2). st_providerId s \<in> (id_p \<circ> snd) ` set (concat (b # bs))"
  proof
    fix s assume "s \<in> set (n1 @ n2)"
    then have "st_providerId s \<in> (id_p \<circ> snd) ` set b \<union> (id_p \<circ> snd) ` set (concat bs)"
      using n1(2) n2(2) by auto
    then show "st_providerId s \<in> (id_p \<circ> snd) ` set (concat (b # bs))"
      by (simp add: image_Un)
  qed
  ultimately have "\<exists>ns. notified (foldl (executeBatch h rc slot desc) st (b # bs)) = notified st @ ns
           \<and> (\<forall>s\<in>set ns. st_providerId s \<in> (id_p \<circ> snd) ` set (concat (b # bs)))"
    by blast
  then show ?case using IH e by simp
qed

lemma runBatches_continue:
  assumes "stopOnFirstSuccess (config st)" "\<not> aborted st" "wf_map (statusMap st)"
      and "\<forall>ip\<in>set batch. map_option status
              (map_of (statusMap (executeBatch h rc slot desc st batch)) (id_p (snd ip))) \<noteq> Some Success"
  shows "runBatches h rc slot desc st None (batch # rest)
           = runBatches h rc slot desc (executeBatch h rc slot desc st batch) None rest"
proof -
  let ?st1 = "executeBatch h rc slot desc st batch"
  note e = executeBatch_props [OF assms(3), where h=h and rc=rc and slot=slot and desc=desc and batch=batch]
  have stop1: "stopOnFirstSuccess (config ?st1)" using e assms(1) by simp
  have no: "\<not> (\<exists>p\<in>set (map snd batch). stat ?st1 (id_p p) = Some Success)"
    using assms(4) by (auto simp: stat_def)
  note c = checkResults_stop [OF stop1, of "map snd batch"]
  have "fst (checkResults ?st1 None (map snd batch)) = ?st1"
    "snd (checkResults ?st1 None (map snd batch)) = None"
    using c no by auto
  then show ?thesis using assms(1,2) by (simp add: Let_def)
qed

lemma runBatches_prefix:
  assumes "stopOnFirstSuccess (config st)" "\<not> aborted st" "wf_map (statusMap st)"
      and "\<forall>i<length pre. \<forall>ip\<in>set (pre ! i). map_option status
              (map_of (statusMap (foldl (executeBatch h rc slot desc) st (take (Suc i) pre)))
                 (id_p (snd ip))) \<noteq> Some Success"
  shows "runBatches h rc slot desc st None (pre @ bs)
           = runBatches h rc slot desc (foldl (executeBatch h rc slot desc) st pre) None bs"
  using assms
proof (induction pre arbitrary: st)
  case Nil
  then show ?case by simp
next
  case (Cons b pre)
  let ?st1 = "executeBatch h rc slot desc st b"
  note e = executeBatch_props [OF Cons.prems(3), where h=h and rc=rc and slot=slot and desc=desc and batch=b]
  have first: "\<forall>ip\<in>set b. map_option status (map_of (statusMap ?st1) (id_p (snd ip))) \<noteq> Some Success"
    using Cons.prems(4) by fastforce
  have step: "runBatches h rc slot desc st None ((b # pre) @ bs)
                = runBatches h rc slot desc ?st1 None (pre @ bs)"
    using runBatches_continue [OF Cons.prems(1,2,3) first] by simp
  have later: "\<forall>i<length pre. \<forall>ip\<in>set (pre ! i). map_option status
              (map_of (statusMap (foldl (executeBatch h rc slot desc) ?st1 (take (Suc i) pre)))
                 (id_p (snd ip))) \<noteq> Some Success"
  proof (intro allI impI)
    fix i assume "i < length pre"
    then have "Suc i < length (b # pre)" by simp
    then show "\<forall>ip\<in>set (pre ! i). map_option status
              (map_of (statusMap (foldl (executeBatch h rc slot desc) ?st1 (take (Suc i) pre)))
                 (id_p (snd ip))) \<noteq> Some Success"
      using Cons.prems(4) [rule_format, of "Suc i"] by simp
  qed
  have "runBatches h rc slot desc ?st1 None (pre @ bs)
          = runBatches h rc slot desc (foldl (executeBatch h rc slot desc) ?st1 pre) None bs"
    using e Cons.prems(1,2) later by (intro Cons.IH) simp_all
  then show ?case using step by simp
qed

lemma foldl_executeBatch_stat:
  assumes "wf_map (statusMap st)" "k \<notin> (id_p \<circ> snd) ` set (concat bs)"
  shows "stat (foldl (executeBatch h rc slot desc) st bs) k = stat st k"
  using assms
proof (induction bs arbitrary: st)
  case Nil
  then show ?case by simp
next
  case (Cons b bs)
  note e = executeBatch_props [OF Cons.prems(1), where h=h and rc=rc and slot=slot and desc=desc and batch=b]
  have kb: "k \<notin> (id_p \<circ> snd) ` set b" and kbs: "k \<notin> (id_p \<circ> snd) ` set (concat bs)"
    using Cons.prems(2) by (auto simp: image_Un)
  have "stat (foldl (executeBatch h rc slot desc) (executeBatch h rc slot desc st b) bs) k
          = stat (executeBatch h rc slot desc st b) k"
    using e kbs by (intro Cons.IH) simp_all
  then show ?case using e kb by simp
qed

lemma initStatuses_notified:
  assumes "statusMap st = []"
  shows "notified (initStatuses st providers) = notified st"
proof -
  have eq: "initStatuses st providers = foldl initStep st providers"
    by (simp add: initStatuses_def initStep_def [abs_def])
  have wf0: "wf_map (statusMap st)" using assms(1) by (simp add: wf_map_def)
  have p0: "\<forall>kv\<in>set (statusMap st). status (snd kv) = Pending" using assms(1) by simp
  show ?thesis using init_fold [OF wf0 p0, of providers] by (simp add: eq)
qed

lemma initStatuses_pending:
  assumes "statusMap st = []" "k \<in> id_p ` set providers"
  shows "stat (initStatuses st providers) k = Some Pending"
proof -
  have eq: "initStatuses st providers = foldl initStep st providers"
    by (simp add: initStatuses_def initStep_def [abs_def])
  have wf0: "wf_map (statusMap st)" using assms(1) by (simp add: wf_map_def)
  have p0: "\<forall>kv\<in>set (statusMap st). status (snd kv) = Pending" using assms(1) by simp
  note f = init_fold [OF wf0 p0, of providers]
  have "k \<in> set (keys (initStatuses st providers))"
    using f assms by (simp add: eq keys_def)
  then obtain s where s: "map_of (statusMap (initStatuses st providers)) k = Some s"
    by (metis keys_def map_of_eq_None_iff not_Some_eq set_map)
  then have "(k, s) \<in> set (statusMap (initStatuses st providers))" by (rule map_of_SomeD)
  then have "status s = Pending" using f by (auto simp: eq)
  then show ?thesis using s by (simp add: stat_def)
qed

lemma runBatches_stop:
  assumes "stopOnFirstSuccess (config st)" and "\<not> aborted st" and "wf_map (statusMap st)"
      and "st1 = executeBatch h rc slot desc st batch"
      and "\<exists>ip\<in>set batch. map_option status (map_of (statusMap st1) (id_p (snd ip))) = Some Success"
  shows "runBatches h rc slot desc st None (batch # rest) = cancelRemainingCalls st1"
proof -
  note e = executeBatch_props [OF assms(3), where h=h and rc=rc and slot=slot and desc=desc and batch=batch]
  have wf1: "wf_map (statusMap st1)" using e assms(4) by simp
  have stop1: "stopOnFirstSuccess (config st1)" using e assms(1,4) by simp
  have succ: "\<exists>p\<in>set (map snd batch). stat st1 (id_p p) = Some Success"
    using assms(5) by (auto simp: stat_def)
  note c = checkResults_stop [OF stop1, of "map snd batch"]
  have f: "fst (checkResults st1 None (map snd batch)) = cancelRemainingCalls st1"
    using c succ by simp
  note cp = cancelRemainingCalls_props [OF wf1]
  have "runBatches h rc slot desc st None (batch # rest)
          = runBatches h rc slot desc (cancelRemainingCalls st1)
                  (snd (checkResults st1 None (map snd batch))) rest"
    using assms(1,2,4) f by (simp add: Let_def)
  then show ?thesis
    using cp(4) by (simp add: runBatches_aborted)
qed

lemma demo_stop_hyps:
  "stopOnFirstSuccess (config demoOrch1)
   \<and> createBatches (zip [0..<length demoProviders] demoProviders) (maxConcurrentCalls (config demoOrch1))
       = Some (demoPre @ demoBatch # demoRest)
   \<and> (\<forall>ip\<in>set (demoPre ! 0). map_option status
         (map_of (statusMap (foldl (executeBatch demoHost demoRaces2 demoSlot None) demoStart1
                               (take (Suc 0) demoPre)))
            (id_p (snd ip))) \<noteq> Some Success)
   \<and> (\<exists>ip\<in>set demoBatch. map_option status
         (map_of (statusMap (foldl (executeBatch demoHost demoRaces2 demoSlot None) demoStart1
                               (demoPre @ [demoBatch])))
            (id_p (snd ip))) = Some Success)
   \<and> length demoPre = 1"
  by code_simp

lemma demo_stop_run:
  "map_option (\<lambda>(res, st'). (map (\<lambda>s. (st_providerId s, status s)) (callStatuses res),
                               map (\<lambda>s. (st_providerId s, status s)) (notified st')))
     (executeSwarm demoHost demoRaces2 demoOrch1 demoProviders demoSlot None)
   = Some ([(''prov_003'', Failed), (''prov_004'', Success), (''prov_001'', Cancelled),
            (''prov_002'', Cancelled)],
           [(''prov_003'', Calling), (''prov_003'', Failed), (''prov_004'', Calling),
            (''prov_004'', Success), (''prov_001'', Cancelled), (''prov_002'', Cancelled)])"
  by code_simp

text \<open>
  Claim C9: take a run of \<open>executeSwarm\<close> with \<open>stopOnFirstSuccess\<close> enabled whose batches
  are \<open>pre\<close>, then \<open>batch\<close>, then \<open>rest\<close>, where no batch of \<open>pre\<close> holds a \<open>success\<close> status
  when it has settled and \<open>batch\<close> holds one; \<open>st1\<close> is the orchestrator when \<open>batch\<close> has
  settled. Then the run ends in \<open>cancelRemainingCalls st1\<close>: every status that is
  \<open>pending\<close> in \<open>st1\<close> is \<open>cancelled\<close> and every other status is as it was in \<open>st1\<close>, so no
  call that was launched is changed; every provider whose id occurs in \<open>rest\<close> only ends
  \<open>cancelled\<close>; and the status updates of the whole run are those of the providers of
  \<open>pre\<close> and \<open>batch\<close> followed by updates to \<open>cancelled\<close>, so no provider of \<open>rest\<close> is
  launched (set to \<open>calling\<close>).
\<close>

theorem stop_on_first_success:
  assumes "stopOnFirstSuccess (config orch)"
      and "executeSwarm h rc orch providers slot desc = Some (res, st')"
      and "createBatches (zip [0..<length providers] providers) (maxConcurrentCalls (config orch))
             = Some (pre @ batch # rest)"
      and "st0 = initStatuses (orch\<lparr>aborted := False, statusMap := []\<rparr>) providers"
      and "\<forall>i<length pre. \<forall>ip\<in>set (pre ! i). map_option status
              (map_of (statusMap (foldl (executeBatch h rc slot desc) st0 (take (Suc i) pre)))
                 (id_p (snd ip))) \<noteq> Some Success"
      and "st1 = foldl (executeBatch h rc slot desc) st0 (pre @ [batch])"
      and "\<exists>ip\<in>set batch. map_option status (map_of (statusMap st1) (id_p (snd ip))) = Some Success"
  shows "st' = cancelRemainingCalls st1
     \<and> callStatuses res = map snd (statusMap st')
     \<and> (\<forall>k s. map_of (statusMap st1) k = Some s \<longrightarrow>
           map_of (statusMap st') k
             = Some (if status s = Pending then s\<lparr>status := Cancelled\<rparr> else s))
     \<and> (\<forall>k. k \<in> id_p ` set providers \<and> k \<notin> (id_p \<circ> snd) ` set (concat (pre @ [batch]))
           \<longrightarrow> map_option status (map_of (statusMap st') k) = Some Cancelled)
     \<and> (\<exists>launched cs. notified st' = notified orch @ launched @ cs
           \<and> (\<forall>s\<in>set launched. st_providerId s \<in> (id_p \<circ> snd) ` set (concat (pre @ [batch])))
           \<and> (\<forall>s\<in>set cs. status s = Cancelled))"
proof -
  let ?EB = "executeBatch h rc slot desc"
  let ?orch0 = "orch\<lparr>aborted := False, statusMap := []\<rparr>"
  have e0: "statusMap ?orch0 = []" by simp
  note i = initStatuses_props [OF e0, of providers]
  have wf0: "wf_map (statusMap st0)" and cfg0: "config st0 = config orch"
    and na0: "\<not> aborted st0"
    using i assms(4) by simp_all
  have n0: "notified st0 = notified orch"
    using initStatuses_notified [OF e0] assms(4) by simp
  have stop0: "stopOnFirstSuccess (config st0)" using assms(1) cfg0 by simp
  have st': "st' = runBatches h rc slot desc st0 None (pre @ batch # rest)"
    and cs: "callStatuses res = map snd (statusMap st')"
    using assms(2,3,4) cfg0 by (auto simp: executeSwarm_def Let_def)
  let ?stp = "foldl ?EB st0 pre"
  note fp = foldl_executeBatch_props [OF wf0, where h=h and rc=rc and slot=slot and desc=desc and bs=pre]
  have wfp: "wf_map (statusMap ?stp)" and stopp: "stopOnFirstSuccess (config ?stp)"
    and nap: "\<not> aborted ?stp"
    using fp stop0 na0 by simp_all
  have s1: "st1 = ?EB ?stp batch" using assms(6) by simp
  have "st' = runBatches h rc slot desc ?stp None (batch # rest)"
    using runBatches_prefix [OF stop0 na0 wf0 assms(5)] st' by simp
  then have fin: "st' = cancelRemainingCalls st1"
    using runBatches_stop [OF stopp nap wfp s1 assms(7)] by simp
  note f1 = foldl_executeBatch_props [OF wf0, where h=h and rc=rc and slot=slot and desc=desc
              and bs="pre @ [batch]"]
  have wf1: "wf_map (statusMap st1)" using f1 assms(6) by simp
  note cp = cancelRemainingCalls_props [OF wf1]
  have m: "\<forall>k s. map_of (statusMap st1) k = Some s \<longrightarrow>
           map_of (statusMap st') k
             = Some (if status s = Pending then s\<lparr>status := Cancelled\<rparr> else s)"
    using cp(5) by (simp add: fin cancelled_of_def)
  have later: "\<forall>k. k \<in> id_p ` set providers \<and> k \<notin> (id_p \<circ> snd) ` set (concat (pre @ [batch]))
           \<longrightarrow> map_option status (map_of (statusMap st') k) = Some Cancelled"
  proof (intro allI impI)
    fix k assume k: "k \<in> id_p ` set providers \<and> k \<notin> (id_p \<circ> snd) ` set (concat (pre @ [batch]))"
    have "stat st1 k = stat st0 k"
      using foldl_executeBatch_stat [OF wf0, of k "pre @ [batch]" h rc slot desc] k assms(6) by simp
    moreover have "stat st0 k = Some Pending"
      using initStatuses_pending [OF e0, of k providers] k assms(4) by simp
    ultimately have "stat st' k = Some Cancelled"
      using stat_cancel [OF wf1, of k] fin by simp
    then show "map_option status (map_of (statusMap st') k) = Some Cancelled"
      by (simp add: stat_def)
  qed
  obtain launched where l: "notified st1 = notified st0 @ launched"
      "\<forall>s\<in>set launched. st_providerId s \<in> (id_p \<circ> snd) ` set (concat (pre @ [batch]))"
    using f1 assms(6) by blast
  have n: "\<exists>launched cs. notified st' = notified orch @ launched @ cs
           \<and> (\<forall>s\<in>set launched. st_providerId s \<in> (id_p \<circ> snd) ` set (concat (pre @ [batch])))
           \<and> (\<forall>s\<in>set cs. status s = Cancelled)"
  proof (intro exI conjI)
    show "notified st' = notified orch @ launched
             @ map (\<lambda>s. s\<lparr>status := Cancelled\<rparr>)
                 (filter (\<lambda>s. status s = Pending) (map snd (statusMap st1)))"
      using cp(6) l(1) n0 by (simp add: fin)
    show "\<forall>s\<in>set launched. st_providerId s \<in> (id_p \<circ> snd) ` set (concat (pre @ [batch]))"
      by (rule l(2))
    show "\<forall>s\<in>set (map (\<lambda>s. s\<lparr>status := Cancelled\<rparr>)
                 (filter (\<lambda>s. status s = Pending) (map snd (statusMap st1)))). status s = Cancelled"
      by auto
  qed
  show ?thesis using fin cs m later n by blast
qed

theorem stop_on_first_success_witness:
  "stopOnFirstSuccess (config demoOrch1)
   \<and> createBatches (zip [0..<length demoProviders] demoProviders) (maxConcurrentCalls (config demoOrch1))
       = Some (demoPre @ demoBatch # demoRest)
   \<and> (\<exists>res st'. executeSwarm demoHost demoRaces2 demoOrch1 demoProviders demoSlot None = Some (res, st')
         \<and> st' = cancelRemainingCalls
                   (foldl (executeBatch demoHost demoRaces2 demoSlot None) demoStart1 (demoPre @ [demoBatch]))
         \<and> map (\<lambda>s. (st_providerId s, status s)) (callStatuses res)
             = [(''prov_003'', Failed), (''prov_004'', Success), (''prov_001'', Cancelled),
                (''prov_002'', Cancelled)]
         \<and> map (\<lambda>s. (st_providerId s, status s)) (notified st')
             = [(''prov_003'', Calling), (''prov_003'', Failed), (''prov_004'', Calling),
                (''prov_004'', Success), (''prov_001'', Cancelled), (''prov_002'', Cancelled)])"
proof -
  let ?EB = "executeBatch demoHost demoRaces2 demoSlot None"
  have stop: "stopOnFirstSuccess (config demoOrch1)"
    and cb: "createBatches (zip [0..<length demoProviders] demoProviders)
               (maxConcurrentCalls (config demoOrch1)) = Some (demoPre @ demoBatch # demoRest)"
    and h0: "\<forall>ip\<in>set (demoPre ! 0). map_option status
         (map_of (statusMap (foldl ?EB demoStart1 (take (Suc 0) demoPre))) (id_p (snd ip)))
           \<noteq> Some Success"
    and hs: "\<exists>ip\<in>set demoBatch. map_option status
         (map_of (statusMap (foldl ?EB demoStart1 (demoPre @ [demoBatch]))) (id_p (snd ip)))
           = Some Success"
    and len: "length demoPre = 1"
    using demo_stop_hyps by blast+
  have pre: "\<forall>i<length demoPre. \<forall>ip\<in>set (demoPre ! i). map_option status
         (map_of (statusMap (foldl ?EB demoStart1 (take (Suc i) demoPre))) (id_p (snd ip)))
           \<noteq> Some Success"
  proof (intro allI impI)
    fix i assume "i < length demoPre"
    then have "i = 0" using len by simp
    then show "\<forall>ip\<in>set (demoPre ! i). map_option status
         (map_of (statusMap (foldl ?EB demoStart1 (take (Suc i) demoPre))) (id_p (snd ip)))
           \<noteq> Some Success"
      using h0 by simp
  qed
  obtain res st' where e: "executeSwarm demoHost demoRaces2 demoOrch1 demoProviders demoSlot None
                             = Some (res, st')"
    using demo_stop_run by (cases "executeSwarm demoHost demoRaces2 demoOrch1 demoProviders demoSlot None") auto
  have obs: "Some (map (\<lambda>s. (st_providerId s, status s)) (callStatuses res),
                   map (\<lambda>s. (st_providerId s, status s)) (notified st'))
   = Some ([(''prov_003'', Failed), (''prov_004'', Success), (''prov_001'', Cancelled),
            (''prov_002'', Cancelled)],
           [(''prov_003'', Calling), (''prov_003'', Failed), (''prov_004'', Calling),
            (''prov_004'', Success), (''prov_001'', Cancelled), (''prov_002'', Cancelled)])"
    using demo_stop_run unfolding e by (simp only: option.map prod.case)
  have fin: "st' = cancelRemainingCalls (foldl ?EB demoStart1 (demoPre @ [demoBatch]))"
    using stop_on_first_success [OF stop e cb demoStart1_def pre refl hs] by blast
  have o1: "map (\<lambda>s. (st_providerId s, status s)) (callStatuses res)
             = [(''prov_003'', Failed), (''prov_004'', Success), (''prov_001'', Cancelled),
                (''prov_002'', Cancelled)]"
    and o2: "map (\<lambda>s. (st_providerId s, status s)) (notified st')
             = [(''prov_003'', Calling), (''prov_003'', Failed), (''prov_004'', Calling),
                (''prov_004'', Success), (''prov_001'', Cancelled), (''prov_002'', Cancelled)]"
    using obs by (simp_all only: option.inject prod.inject)
  show ?thesis
    by (intro conjI exI [of _ res] exI [of _ st'] stop cb e fin o1 o2)
qed

subsection \<open>The ranking leaves its input alone\<close>

lemma nth_opt_append: "a < length hp \<Longrightarrow> nth_opt (hp @ xs) a = nth_opt hp a"
  by (simp add: nth_opt_def nth_append)

lemma nth_opt_Some_lt: "nth_opt hp a = Some x \<Longrightarrow> a < length hp"
  by (simp add: nth_opt_def split: if_splits)

lemma providerAt_append: "providerAt hp a = Some p \<Longrightarrow> providerAt (hp @ xs) a = Some p"
proof -
  assume a: "providerAt hp a = Some p"
  then have "a < length hp"
    by (auto simp: providerAt_def dest: nth_opt_Some_lt split: option.splits)
  then show ?thesis using a by (simp add: providerAt_def nth_opt_append)
qed

lemma those_map_cong:
  "those (map f as) = Some ps \<Longrightarrow> (\<And>x p. f x = Some p \<Longrightarrow> g x = Some p)
     \<Longrightarrow> those (map g as) = Some ps"
proof (induction as arbitrary: ps)
  case Nil
  then show ?case by simp
next
  case (Cons a as)
  then show ?case by (auto split: option.splits)
qed

lemma map_score_st_closed:
  "those (map (providerAt hp) as) = Some ps \<Longrightarrow>
     map_score_st h hp as intent weights
       = Some (hp @ map (\<lambda>p. RankedObj (scoreProvider h p intent weights)) ps,
               [length hp ..< length hp + length ps])"
proof (induction as arbitrary: hp ps)
  case Nil
  then show ?case by simp
next
  case (Cons a as)
  from Cons.prems obtain p ps' where p: "providerAt hp a = Some p"
    and ps': "those (map (providerAt hp) as) = Some ps'" and ps: "ps = p # ps'"
    by (auto split: option.splits)
  let ?hp1 = "hp @ [RankedObj (scoreProvider h p intent weights)]"
  have s: "scoreProvider_st h hp a intent weights = Some (?hp1, length hp)"
    using p by (simp add: scoreProvider_st_def alloc_def)
  have "those (map (providerAt ?hp1) as) = Some ps'"
    using ps' by (rule those_map_cong) (rule providerAt_append)
  then have IH: "map_score_st h ?hp1 as intent weights
       = Some (?hp1 @ map (\<lambda>p. RankedObj (scoreProvider h p intent weights)) ps',
               [length ?hp1 ..< length ?hp1 + length ps'])"
    by (rule Cons.IH)
  have u: "[length hp ..< length hp + length ps] = length hp # [length ?hp1 ..< length ?hp1 + length ps']"
  proof -
    have "[length hp ..< length hp + Suc (length ps')]
            = length hp # [Suc (length hp) ..< length hp + Suc (length ps')]"
      by (rule upt_conv_Cons) simp
    then show ?thesis using ps by (simp del: upt_Suc)
  qed
  show ?case using s IH ps u by (simp del: upt_Suc)
qed

lemma distinct_js_insert: "distinct (js_insert c x ys) = (x \<notin> set ys \<and> distinct ys)"
  by (induction ys) (auto simp: set_js_insert)

lemma distinct_js_sort: "distinct (js_sort c xs) = distinct xs"
  by (induction xs) (auto simp: distinct_js_insert set_js_sort)

lemma map_js_insert:
  "map g (js_insert (\<lambda>a b. c (g a) (g b)) x ys) = js_insert c (g x) (map g ys)"
  by (induction ys) auto

lemma map_js_sort:
  "map g (js_sort (\<lambda>a b. c (g a) (g b)) xs) = js_sort c (map g xs)"
  by (induction xs) (auto simp: map_js_insert)

lemma js_insert_cong:
  "(\<And>y. y \<in> set ys \<Longrightarrow> c1 x y = c2 x y) \<Longrightarrow> js_insert c1 x ys = js_insert c2 x ys"
  by (induction ys) auto

lemma js_sort_cong:
  "(\<And>x y. x \<in> set xs \<Longrightarrow> y \<in> set xs \<Longrightarrow> c1 x y = c2 x y) \<Longrightarrow> js_sort c1 xs = js_sort c2 xs"
proof (induction xs)
  case Nil
  then show ?case by simp
next
  case (Cons x xs)
  have "js_sort c1 xs = js_sort c2 xs" using Cons by simp
  moreover have "js_insert c1 x (js_sort c2 xs) = js_insert c2 x (js_sort c2 xs)"
    using Cons.prems by (intro js_insert_cong) (simp add: set_js_sort)
  ultimately show ?case by simp
qed

lemma truncate_scoreProvider: "Provider.truncate (scoreProvider h p intent weights) = p"
  by (simp add: scoreProvider_def Let_def Provider.truncate_def Provider.extend_def)

lemma matchingSlots_scoreProvider:
  "matchingSlots (scoreProvider h p intent weights) = filter (slotInRange h intent) (availableSlots p)"
  by (simp add: scoreProvider_def Let_def Provider.extend_def RankedProvider.fields_def
        RankedProvider.defs Provider.defs)

lemma those_map_Some:
  "(\<And>x. x \<in> set xs \<Longrightarrow> f x = Some (g x)) \<Longrightarrow> those (map f xs) = Some (map g xs)"
  by (induction xs) auto

lemma those_length: "those xs = Some ys \<Longrightarrow> length ys = length xs"
  by (induction xs arbitrary: ys) (auto split: option.splits)

lemma map_nth_shift: "map (\<lambda>x. xs ! (x - n)) [n ..< n + length xs] = xs"
proof -
  have "[n ..< n + length xs] = map (\<lambda>i. i + n) [0 ..< length xs]"
    by (simp add: map_add_upt add.commute)
  then have "map (\<lambda>x. xs ! (x - n)) [n ..< n + length xs] = map (\<lambda>i. xs ! i) [0 ..< length xs]"
    by (simp add: comp_def)
  then show ?thesis by (simp add: map_nth)
qed

lemma rankProviders_st_closed:
  assumes arr: "nth_opt hp a = Some (ArrayObj as)"
      and ps: "those (map (providerAt hp) as) = Some ps"
  shows "\<exists>sorted. rankProviders_st h hp a intent weights
       = Some (hp @ map RankedObj (map (\<lambda>p. scoreProvider h p intent weights) ps) @ [ArrayObj sorted],
               length hp + length ps)
     \<and> set sorted = {length hp ..< length hp + length ps} \<and> distinct sorted
     \<and> map (\<lambda>x. map (\<lambda>p. scoreProvider h p intent weights) ps ! (x - length hp)) sorted
         = rankProviders h ps intent weights"
proof -
  let ?n = "length hp"
  let ?scored = "map (\<lambda>p. scoreProvider h p intent weights) ps"
  let ?hp1 = "hp @ map RankedObj ?scored"
  let ?rs = "[?n ..< ?n + length ps]"
  let ?hp2 = "?hp1 @ [ArrayObj ?rs]"
  let ?G = "\<lambda>x. ?scored ! (x - ?n)"
  let ?sorted = "js_sort (\<lambda>a b. fsub (finalScoreAt ?hp2 b) (finalScoreAt ?hp2 a)) ?rs"
  have m: "map_score_st h hp as intent weights = Some (?hp1, ?rs)"
    using map_score_st_closed [OF ps, of h intent weights] by (simp add: comp_def)
  have obj: "rankedObjAt ?hp2 x = Some (?G x)" if "x \<in> set ?rs" for x
  proof -
    have x: "?n \<le> x" "x - ?n < length ps" using that by auto
    then have "x < length ?hp2" by simp
    moreover have "?hp2 ! x = RankedObj (?G x)"
      using x by (simp add: nth_append)
    ultimately show ?thesis by (simp add: rankedObjAt_def nth_opt_def)
  qed
  have fs: "finalScoreAt ?hp2 x = finalScore (?G x)" if "x \<in> set ?rs" for x
    using obj [OF that] by (simp add: finalScoreAt_def)
  have "?sorted = js_sort (\<lambda>a b. fsub (finalScore (?G b)) (finalScore (?G a))) ?rs"
    by (rule js_sort_cong) (simp only: fs)
  then have "map ?G ?sorted = js_sort (\<lambda>a b. fsub (finalScore b) (finalScore a)) (map ?G ?rs)"
    by (simp only: map_js_sort [where c = "\<lambda>a b. fsub (finalScore b) (finalScore a)" and g = ?G])
  moreover have "map ?G ?rs = ?scored"
    using map_nth_shift [of ?scored ?n] by simp
  ultimately have srt: "map ?G ?sorted = rankProviders h ps intent weights"
    by (simp add: rankProviders_def)
  have upd: "?hp2[length ?hp1 := ArrayObj ?sorted] = ?hp1 @ [ArrayObj ?sorted]"
    by (simp add: list_update_append)
  have r: "rankProviders_st h hp a intent weights = Some (?hp1 @ [ArrayObj ?sorted], length ?hp1)"
    using arr m upd by (simp add: rankProviders_st_def alloc_def Let_def)
  have st: "set ?sorted = {?n ..< ?n + length ps}" by (simp add: set_js_sort)
  have d: "distinct ?sorted" by (simp add: distinct_js_sort)
  show ?thesis
    using r st d srt by (intro exI [of _ ?sorted]) simp
qed

text \<open>
  Claim C10, on the explicit store: \<open>scoreProvider\<close> allocates one new object and leaves
  the store it was given as it was. \<open>rankProviders\<close>, given the address of an array of
  providers, returns; every object of the store before the call is as it was, so the
  input array has the same length and the same elements in the same order and every
  provider has the same fields; the result is the address of a new array whose elements
  are the addresses of pairwise different new objects; read out of the store they are the
  list that the function \<open>rankProviders\<close> computes from the providers, as many as the
  input; and every scored provider, restricted to the fields of \<open>Provider\<close>, is the
  provider it was computed from, to which \<open>finalScore\<close> and \<open>matchingSlots\<close> are added.
\<close>

theorem rankProviders_frame:
  "(providerAt hp pa = Some p \<longrightarrow>
      scoreProvider_st h hp pa intent weights
        = Some (hp @ [RankedObj (scoreProvider h p intent weights)], length hp)
      \<and> Provider.truncate (scoreProvider h p intent weights) = p)
   \<and> (providersAt hp a = Some ps \<longrightarrow>
      (\<exists>hp' r rs. rankProviders_st h hp a intent weights = Some (hp', r)
         \<and> take (length hp) hp' = hp
         \<and> providersAt hp' a = Some ps
         \<and> length hp \<le> r \<and> nth_opt hp' r = Some (ArrayObj rs)
         \<and> distinct rs \<and> (\<forall>x\<in>set rs. length hp \<le> x \<and> x < length hp' \<and> x \<noteq> r)
         \<and> rankedAt hp' r = Some (rankProviders h ps intent weights)
         \<and> length (rankProviders h ps intent weights) = length ps
         \<and> (\<forall>q\<in>set ps. Provider.truncate (scoreProvider h q intent weights) = q)))"
proof (intro conjI impI)
  assume "providerAt hp pa = Some p"
  then show "scoreProvider_st h hp pa intent weights
        = Some (hp @ [RankedObj (scoreProvider h p intent weights)], length hp)"
    by (simp add: scoreProvider_st_def alloc_def)
  show "Provider.truncate (scoreProvider h p intent weights) = p"
    by (rule truncate_scoreProvider)
next
  assume pa: "providersAt hp a = Some ps"
  then obtain as where arr: "nth_opt hp a = Some (ArrayObj as)"
    and ps: "those (map (providerAt hp) as) = Some ps"
    by (auto simp: providersAt_def split: option.splits obj.splits)
  let ?n = "length hp"
  let ?scored = "map (\<lambda>p. scoreProvider h p intent weights) ps"
  obtain sorted where
    r: "rankProviders_st h hp a intent weights
         = Some (hp @ map RankedObj ?scored @ [ArrayObj sorted], ?n + length ps)"
    and st: "set sorted = {?n ..< ?n + length ps}" and d: "distinct sorted"
    and srt: "map (\<lambda>x. ?scored ! (x - ?n)) sorted = rankProviders h ps intent weights"
    using rankProviders_st_closed [OF arr ps, of h intent weights] by blast
  let ?hp' = "hp @ map RankedObj ?scored @ [ArrayObj sorted]"
  let ?r = "?n + length ps"
  have alt: "a < ?n" using arr by (rule nth_opt_Some_lt)
  have arr': "nth_opt ?hp' a = Some (ArrayObj as)" using arr alt by (simp add: nth_opt_append)
  have "those (map (providerAt ?hp') as) = Some ps"
    using ps by (rule those_map_cong) (rule providerAt_append)
  then have p': "providersAt ?hp' a = Some ps" using arr' by (simp add: providersAt_def)
  have nr: "nth_opt ?hp' ?r = Some (ArrayObj sorted)"
    by (simp add: nth_opt_def nth_append)
  have obj: "rankedObjAt ?hp' x = Some (?scored ! (x - ?n))" if "x \<in> set sorted" for x
  proof -
    have x: "?n \<le> x" "x - ?n < length ps" using that st by auto
    then have "x < length ?hp'" by simp
    moreover have "?hp' ! x = RankedObj (?scored ! (x - ?n))"
      using x by (simp add: nth_append)
    ultimately show ?thesis by (simp add: rankedObjAt_def nth_opt_def)
  qed
  have "those (map (rankedObjAt ?hp') sorted) = Some (map (\<lambda>x. ?scored ! (x - ?n)) sorted)"
    by (rule those_map_Some) (rule obj)
  then have ra: "rankedAt ?hp' ?r = Some (rankProviders h ps intent weights)"
    using nr srt by (simp add: rankedAt_def)
  have len: "length (rankProviders h ps intent weights) = length ps"
  proof -
    have "length sorted = card (set sorted)" using d by (simp add: distinct_card)
    then have "length sorted = length ps" using st by simp
    then show ?thesis using srt by (metis length_map)
  qed
  have fresh: "\<forall>x\<in>set sorted. ?n \<le> x \<and> x < length ?hp' \<and> x \<noteq> ?r"
    using st by auto
  have tr: "\<forall>q\<in>set ps. Provider.truncate (scoreProvider h q intent weights) = q"
    by (simp add: truncate_scoreProvider)
  show "\<exists>hp' r rs. rankProviders_st h hp a intent weights = Some (hp', r)
         \<and> take (length hp) hp' = hp
         \<and> providersAt hp' a = Some ps
         \<and> length hp \<le> r \<and> nth_opt hp' r = Some (ArrayObj rs)
         \<and> distinct rs \<and> (\<forall>x\<in>set rs. length hp \<le> x \<and> x < length hp' \<and> x \<noteq> r)
         \<and> rankedAt hp' r = Some (rankProviders h ps intent weights)
         \<and> length (rankProviders h ps intent weights) = length ps
         \<and> (\<forall>q\<in>set ps. Provider.truncate (scoreProvider h q intent weights) = q)"
    by (intro exI [of _ ?hp'] exI [of _ ?r] exI [of _ sorted] conjI r p' nr d fresh ra len tr) simp_all
qed

lemma demo_store_hyps:
  "providerAt demoStore 0 = Some (demoDirectory ! 0) \<and> providersAt demoStore 4 = Some demoDirectory"
  by code_simp

lemma demo_store_run:
  "map_option (\<lambda>(hp', r). (r, nth_opt hp' r, map_option (map id_p) (rankedAt hp' r)))
     (rankProviders_st demoHost demoStore 4 demoIntent DEFAULT_WEIGHTS)
   = Some (9, Some (ArrayObj [5, 8, 6, 7]),
           Some [''prov_001'', ''prov_004'', ''prov_002'', ''prov_003''])"
  by code_simp

theorem rankProviders_frame_witness:
  "providerAt demoStore 0 = Some (demoDirectory ! 0) \<and> providersAt demoStore 4 = Some demoDirectory
   \<and> scoreProvider_st demoHost demoStore 0 demoIntent DEFAULT_WEIGHTS
       = Some (demoStore @ [RankedObj (scoreProvider demoHost (demoDirectory ! 0) demoIntent DEFAULT_WEIGHTS)],
               length demoStore)
   \<and> (\<exists>hp' r. rankProviders_st demoHost demoStore 4 demoIntent DEFAULT_WEIGHTS = Some (hp', r)
         \<and> take (length demoStore) hp' = demoStore
         \<and> providersAt hp' 4 = Some demoDirectory
         \<and> r = 9 \<and> nth_opt hp' r = Some (ArrayObj [5, 8, 6, 7])
         \<and> map_option (map id_p) (rankedAt hp' r)
             = Some [''prov_001'', ''prov_004'', ''prov_002'', ''prov_003''])"
proof -
  note hy = demo_store_hyps
  note t = rankProviders_frame [of demoStore 0 "demoDirectory ! 0" demoHost demoIntent DEFAULT_WEIGHTS
             4 demoDirectory]
  have s: "scoreProvider_st demoHost demoStore 0 demoIntent DEFAULT_WEIGHTS
       = Some (demoStore @ [RankedObj (scoreProvider demoHost (demoDirectory ! 0) demoIntent DEFAULT_WEIGHTS)],
               length demoStore)"
    using t hy by blast
  obtain hp' r where e: "rankProviders_st demoHost demoStore 4 demoIntent DEFAULT_WEIGHTS = Some (hp', r)"
    and fr: "take (length demoStore) hp' = demoStore" "providersAt hp' 4 = Some demoDirectory"
    using t hy by blast
  have c: "r = 9" "nth_opt hp' r = Some (ArrayObj [5, 8, 6, 7])"
    "map_option (map id_p) (rankedAt hp' r)
             = Some [''prov_001'', ''prov_004'', ''prov_002'', ''prov_003'']"
  proof -
    have "Some (r, nth_opt hp' r, map_option (map id_p) (rankedAt hp' r))
            = Some (9, Some (ArrayObj [5, 8, 6, 7]),
               Some [''prov_001'', ''prov_004'', ''prov_002'', ''prov_003''])"
      using demo_store_run unfolding e by (simp only: option.map prod.case)
    then show "r = 9" "nth_opt hp' r = Some (ArrayObj [5, 8, 6, 7])"
      "map_option (map id_p) (rankedAt hp' r)
             = Some [''prov_001'', ''prov_004'', ''prov_002'', ''prov_003'']"
      by blast+
  qed
  show ?thesis
    by (intro conjI exI [of _ hp'] exI [of _ r] s e fr c) (simp_all add: hy)
qed

end
